theory Spec2Isabelle
  imports Complex_Main "HOL-Library.AList"
begin

section \<open>Similarity grouping of exam questions: \<open>scripts/find_similar_questions.py\<close>\<close>

text \<open>
  The script groups question records in two stages. Stage 1 embeds the texts, clusters the
  embeddings with HDBSCAN and verifies every candidate cluster with a cross-encoder: the
  pairs scoring at least a threshold are the edges of a graph whose connected components
  become the groups. Stage 2 re-examines the groups larger than a size threshold and tries
  to split them.

  The embedding model, HDBSCAN, the cross-encoder and SciPy's hierarchical clustering are
  libraries outside the repository. They enter the model as parameters: functions of which
  nothing is known but what a theorem assumes about them.
\<close>

subsection \<open>Data model\<close>

text \<open>
  A Python \<open>dict\<close> is an association list in insertion order: \<open>d[k] = v\<close> is
  \<open>AList.update k v d\<close> (an existing key keeps its place, a new key goes last),
  \<open>d.get(k)\<close> is \<open>map_of d k\<close> and \<open>d.items()\<close> is the list itself.
\<close>

datatype error = IndexError

text \<open>
  The entry \<open>"similarity_group_id"\<close> of a question dict: the key may be absent, hold
  \<open>None\<close> (JSON \<open>null\<close>) or hold a label.
\<close>

datatype label_field = Missing | Null | Label string

text \<open>
  A question dict. \<open>success\<close> is the truth value of \<open>q.get("success")\<close>. \<open>data\<close> is
  \<open>None\<close> when \<open>q.get("data")\<close> is absent or an empty dict, and \<open>Some t\<close> for a non-empty
  dict whose \<open>"question_text"\<close> is \<open>t\<close> (the empty string when that key is absent).
\<close>

record question =
  success :: bool
  data :: "string option"
  similarity_group_id :: label_field

text \<open>\<open>q.get("similarity_group_id")\<close>: \<open>None\<close> for an absent key as for a stored \<open>None\<close>.\<close>

definition get_group_id :: "question \<Rightarrow> string option" where
  "get_group_id q =
     (case similarity_group_id q of Missing \<Rightarrow> None | Null \<Rightarrow> None | Label l \<Rightarrow> Some l)"

definition get_question_text :: "question \<Rightarrow> string" where
  "get_question_text q = (case data q of None \<Rightarrow> [] | Some t \<Rightarrow> t)"

definition prepare_e5_text :: "string \<Rightarrow> string" where
  "prepare_e5_text text = ''query: '' @ text"

text \<open>
  \<open>str.strip()\<close> removes leading and trailing whitespace, so \<open>text.strip()\<close> is true
  exactly when some character of the text is not whitespace. The whitespace characters
  below are the ASCII ones of Python's \<open>str.isspace\<close>.
\<close>

definition py_isspace :: "char \<Rightarrow> bool" where
  "py_isspace c = (of_char c \<in> {9, 10, 11, 12, 13, 28, 29, 30, 31, 32 :: nat})"

definition strip_nonempty :: "string \<Rightarrow> bool" where
  "strip_nonempty text = (\<exists>c \<in> set text. \<not> py_isspace c)"

text \<open>\<open>str(n)\<close> for a non-negative integer, and the two label formats.\<close>

definition digit :: "nat \<Rightarrow> char" where
  "digit d = ''0123456789'' ! d"

fun str_nat :: "nat \<Rightarrow> string" where
  "str_nat n = (if n < 10 then [digit n] else str_nat (n div 10) @ [digit (n mod 10)])"

declare str_nat.simps [simp del]

definition sim_group :: "nat \<Rightarrow> string" where
  "sim_group cluster_id = ''sim_group_'' @ str_nat cluster_id"

definition sub_label :: "string \<Rightarrow> nat \<Rightarrow> string" where
  "sub_label group_id sub_group_num = group_id @ ''_sub'' @ str_nat sub_group_num"

subsection \<open>The external models\<close>

text \<open>
  \<open>cross_encoder.predict(pairs)\<close> scores every pair of texts on its own; the scores are
  compared with \<open>>=\<close> only, so they are modelled as real numbers.
\<close>

type_synonym cross_encoder = "string \<Rightarrow> string \<Rightarrow> real"

definition predict :: "cross_encoder \<Rightarrow> (string \<times> string) list \<Rightarrow> real list" where
  "predict ce pairs = map (\<lambda>(a, b). ce a b) pairs"

text \<open>
  \<open>hdbscan.HDBSCAN(min_cluster_size, min_samples, cluster_selection_method).fit_predict\<close>:
  one integer label for each embedding, \<open>-1\<close> for noise.
\<close>

datatype selection_method = Eom | Leaf

type_synonym 'v clusterer = "int \<Rightarrow> int \<Rightarrow> selection_method \<Rightarrow> 'v list \<Rightarrow> int list"

type_synonym 'v bi_encoder = "string list \<Rightarrow> 'v list"

subsection \<open>The verification graph\<close>

text \<open>
  \<open>adjacency = defaultdict(set)\<close>: the neighbours of a node, the empty set for a node
  that was never stored. The order in which Python iterates over a set is not specified;
  the model lists the neighbours newest first, and every theorem below is about the set of
  members of a group, which does not depend on that order.
\<close>

type_synonym adjacency = "(nat \<times> nat list) list"

definition adj_get :: "adjacency \<Rightarrow> nat \<Rightarrow> nat list" where
  "adj_get adjacency i = (case map_of adjacency i of None \<Rightarrow> [] | Some ns \<Rightarrow> ns)"

definition adj_add :: "adjacency \<Rightarrow> nat \<Rightarrow> nat \<Rightarrow> adjacency" where
  "adj_add adjacency i j = AList.update i (List.insert j (adj_get adjacency i)) adjacency"

text \<open>
  \<open>for (i, j), score in zip(pair_indices, scores): if score >= threshold: ...\<close>
\<close>

fun build_adjacency :: "real \<Rightarrow> ((nat \<times> nat) \<times> real) list \<Rightarrow> adjacency \<Rightarrow> adjacency" where
  "build_adjacency threshold [] adjacency = adjacency"
| "build_adjacency threshold (((i, j), score) # rest) adjacency =
     build_adjacency threshold rest
       (if score \<ge> threshold then adj_add (adj_add adjacency i j) j i else adjacency)"

text \<open>
  The pairs of Stage 1, \<open>for i in range(n): for j in range(i + 1, n)\<close>, and the bounded
  pairs of Stage 2, \<open>for j in range(i + 1, min(n, i + 51))\<close>.
\<close>

definition pair_indices :: "nat \<Rightarrow> (nat \<times> nat) list" where
  "pair_indices n = concat (map (\<lambda>i. map (\<lambda>j. (i, j)) [i + 1..<n]) [0..<n])"

definition pair_indices_bounded :: "nat \<Rightarrow> (nat \<times> nat) list" where
  "pair_indices_bounded n =
     concat (map (\<lambda>i. map (\<lambda>j. (i, j)) [i + 1..<min n (i + 51)]) [0..<n])"

definition text_pairs :: "string list \<Rightarrow> (nat \<times> nat) list \<Rightarrow> (string \<times> string) list" where
  "text_pairs member_texts pair_idx =
     map (\<lambda>(i, j). (member_texts ! i, member_texts ! j)) pair_idx"

text \<open>
  The breadth-first loop \<open>while queue: node = queue.pop(0) ...\<close>. It returns the visited
  set and the component. The generator passed to \<open>queue.extend\<close> runs after
  \<open>visited.add(node)\<close>.
\<close>

function bfs :: "adjacency \<Rightarrow> nat list \<Rightarrow> nat list \<Rightarrow> nat set \<Rightarrow> nat list \<Rightarrow> nat set \<times> nat list" where
  "bfs adjacency members [] visited component = (visited, component)"
| "bfs adjacency members (node # queue) visited component =
     (if node \<in> visited then bfs adjacency members queue visited component
      else bfs adjacency members
             (queue @ filter (\<lambda>n. n \<notin> insert node visited) (adj_get adjacency node))
             (insert node visited) (component @ [members ! node]))"
  by pat_completeness auto

lemma adj_get_not_key: "node \<notin> fst ` set adjacency \<Longrightarrow> adj_get adjacency node = []"
  by (simp add: adj_get_def map_of_eq_None_iff [THEN iffD2])

termination bfs
proof (relation "measures [\<lambda>(a, m, q, v, c). card (fst ` set a - v), \<lambda>(a, m, q, v, c). length q]")
  show "wf (measures [\<lambda>(a, m, q, v, c). card (fst ` set a - v), \<lambda>(a, m, q, v, c). length q])"
    by simp
next
  fix adjacency :: adjacency and members :: "nat list" and node :: nat
    and queue :: "nat list" and visited :: "nat set" and component :: "nat list"
  assume "node \<in> visited"
  then show "((adjacency, members, queue, visited, component),
              (adjacency, members, node # queue, visited, component))
      \<in> measures [\<lambda>(a, m, q, v, c). card (fst ` set a - v), \<lambda>(a, m, q, v, c). length q]"
    by simp
next
  fix adjacency :: adjacency and members :: "nat list" and node :: nat
    and queue :: "nat list" and visited :: "nat set" and component :: "nat list"
  assume nv: "node \<notin> visited"
  show "((adjacency, members,
          queue @ filter (\<lambda>n. n \<notin> insert node visited) (adj_get adjacency node),
          insert node visited, component @ [members ! node]),
         (adjacency, members, node # queue, visited, component))
      \<in> measures [\<lambda>(a, m, q, v, c). card (fst ` set a - v), \<lambda>(a, m, q, v, c). length q]"
  proof (cases "node \<in> fst ` set adjacency")
    case True
    have "fst ` set adjacency - insert node visited \<subset> fst ` set adjacency - visited"
      using True nv by auto
    then have "card (fst ` set adjacency - insert node visited)
        < card (fst ` set adjacency - visited)"
      by (intro psubset_card_mono) auto
    then show ?thesis by simp
  next
    case False
    then have "adj_get adjacency node = []" by (rule adj_get_not_key)
    moreover have "fst ` set adjacency - insert node visited = fst ` set adjacency - visited"
      using False by auto
    ultimately show ?thesis by simp
  qed
qed

text \<open>
  \<open>for local_idx in component: verified[keys[local_idx]] = value\<close>, the loop that writes
  one group: Stage 1 runs it with \<open>original_indices\<close> and a label, Stage 2 with \<open>indices\<close>
  and a sub-group number.
\<close>

fun assign_component :: "nat list \<Rightarrow> 'a \<Rightarrow> nat list \<Rightarrow> (nat \<times> 'a) list \<Rightarrow> (nat \<times> 'a) list" where
  "assign_component keys v [] verified = verified"
| "assign_component keys v (local_idx # component) verified =
     assign_component keys v component (AList.update (keys ! local_idx) v verified)"

text \<open>
  Stage 1, \<open>for start in range(len(members))\<close>: a start that is visited or has no
  neighbour is skipped. The state is \<open>(visited, cluster_id, verified_clusters)\<close>.
\<close>

fun components_loop :: "adjacency \<Rightarrow> nat list \<Rightarrow> nat list \<Rightarrow> nat list \<Rightarrow>
    nat set \<times> nat \<times> (nat \<times> string) list \<Rightarrow> nat set \<times> nat \<times> (nat \<times> string) list" where
  "components_loop adjacency members original_indices [] state = state"
| "components_loop adjacency members original_indices (start # starts)
      (visited, cluster_id, verified_clusters) =
     (if start \<in> visited \<or> adj_get adjacency start = []
      then components_loop adjacency members original_indices starts
             (visited, cluster_id, verified_clusters)
      else case bfs adjacency members [start] visited [] of
        (visited', component) \<Rightarrow>
          if length component \<ge> 2
          then components_loop adjacency members original_indices starts
                 (visited', cluster_id + 1,
                  assign_component original_indices (sim_group (cluster_id + 1)) component
                    verified_clusters)
          else components_loop adjacency members original_indices starts
                 (visited', cluster_id, verified_clusters))"

text \<open>
  Stage 2, the same loop in \<open>try_split_group\<close>: only a visited start is skipped, and the
  groups are numbered by \<open>sub_group_counter\<close>.
\<close>

fun sub_components_loop :: "adjacency \<Rightarrow> nat list \<Rightarrow> nat list \<Rightarrow> nat list \<Rightarrow>
    nat set \<times> nat \<times> (nat \<times> nat) list \<Rightarrow> nat set \<times> nat \<times> (nat \<times> nat) list" where
  "sub_components_loop adjacency members indices [] state = state"
| "sub_components_loop adjacency members indices (start # starts)
      (visited, sub_group_counter, verified_assignments) =
     (if start \<in> visited
      then sub_components_loop adjacency members indices starts
             (visited, sub_group_counter, verified_assignments)
      else case bfs adjacency members [start] visited [] of
        (visited', component) \<Rightarrow>
          if length component \<ge> 2
          then sub_components_loop adjacency members indices starts
                 (visited', sub_group_counter + 1,
                  assign_component indices (sub_group_counter + 1) component
                    verified_assignments)
          else sub_components_loop adjacency members indices starts
                 (visited', sub_group_counter, verified_assignments))"

text \<open>
  The body of \<open>for label, members in clusters.items()\<close> in Stage 1, with the state
  \<open>(cluster_id, verified_clusters)\<close>. The list comprehension
  \<open>[valid_texts[i] for i in members]\<close> raises \<open>IndexError\<close> on a member out of range.
\<close>

definition verify_cluster :: "cross_encoder \<Rightarrow> real \<Rightarrow> string list \<Rightarrow> nat list \<Rightarrow> nat list \<Rightarrow>
    nat \<times> (nat \<times> string) list \<Rightarrow> error + nat \<times> (nat \<times> string) list" where
  "verify_cluster ce threshold valid_texts original_indices members state =
     (if length members < 2 then Inr state
      else if \<exists>i \<in> set members. length valid_texts \<le> i then Inl IndexError
      else
        let member_texts = map (\<lambda>i. valid_texts ! i) members;
            pair_idx = pair_indices (length members);
            pairs = text_pairs member_texts pair_idx
        in if pairs = [] then Inr state
           else
             let scores = predict ce pairs;
                 adjacency = build_adjacency threshold (zip pair_idx scores) []
             in case components_loop adjacency members original_indices
                       [0..<length members] ({}, fst state, snd state) of
                  (visited, cluster_id, verified_clusters) \<Rightarrow>
                    Inr (cluster_id, verified_clusters))"

text \<open>
  The body of \<open>for label, members in clusters.items()\<close> in \<open>try_split_group\<close>, with the
  state \<open>(sub_group_counter, verified_assignments)\<close>: the same steps on the bounded pairs.
\<close>

definition verify_sub_cluster :: "cross_encoder \<Rightarrow> real \<Rightarrow> string list \<Rightarrow> nat list \<Rightarrow> nat list \<Rightarrow>
    nat \<times> (nat \<times> nat) list \<Rightarrow> error + nat \<times> (nat \<times> nat) list" where
  "verify_sub_cluster ce threshold texts indices members state =
     (if length members < 2 then Inr state
      else if \<exists>i \<in> set members. length texts \<le> i then Inl IndexError
      else
        let member_texts = map (\<lambda>i. texts ! i) members;
            pair_idx = pair_indices_bounded (length members);
            pairs = text_pairs member_texts pair_idx
        in if pairs = [] then Inr state
           else
             let scores = predict ce pairs;
                 adjacency = build_adjacency threshold (zip pair_idx scores) []
             in case sub_components_loop adjacency members indices
                       [0..<length members] ({}, fst state, snd state) of
                  (visited, sub_group_counter, verified_assignments) \<Rightarrow>
                    Inr (sub_group_counter, verified_assignments))"

subsection \<open>Stage 1\<close>

text \<open>
  \<open>defaultdict(list)\<close>: a missing key reads as the empty list. The dict
  \<open>clusters = defaultdict(list)\<close> is filled by
  \<open>for i, label in enumerate(cluster_labels): if label >= 0: clusters[label].append(i)\<close>.
\<close>

definition cluster_get :: "('k \<times> nat list) list \<Rightarrow> 'k \<Rightarrow> nat list" where
  "cluster_get clusters label = (case map_of clusters label of None \<Rightarrow> [] | Some members \<Rightarrow> members)"

fun group_by_cluster :: "(nat \<times> int) list \<Rightarrow> (int \<times> nat list) list \<Rightarrow> (int \<times> nat list) list" where
  "group_by_cluster [] clusters = clusters"
| "group_by_cluster ((i, label) # rest) clusters =
     group_by_cluster rest
       (if label \<ge> 0 then AList.update label (cluster_get clusters label @ [i]) clusters
        else clusters)"

text \<open>\<open>for label, members in clusters.items()\<close> with the cross-encoder.\<close>

fun verify_clusters :: "cross_encoder \<Rightarrow> real \<Rightarrow> string list \<Rightarrow> nat list \<Rightarrow> (int \<times> nat list) list \<Rightarrow>
    nat \<times> (nat \<times> string) list \<Rightarrow> error + nat \<times> (nat \<times> string) list" where
  "verify_clusters ce threshold valid_texts original_indices [] state = Inr state"
| "verify_clusters ce threshold valid_texts original_indices ((label, members) # rest) state =
     (case verify_cluster ce threshold valid_texts original_indices members state of
        Inl e \<Rightarrow> Inl e
      | Inr state' \<Rightarrow> verify_clusters ce threshold valid_texts original_indices rest state')"

text \<open>
  The same loop without the cross-encoder: every cluster of at least two members becomes a
  group. \<open>original_indices[local_idx]\<close> raises \<open>IndexError\<close> on a member out of range.
\<close>

definition accept_cluster :: "nat list \<Rightarrow> nat list \<Rightarrow> nat \<times> (nat \<times> string) list \<Rightarrow>
    error + nat \<times> (nat \<times> string) list" where
  "accept_cluster original_indices members state =
     (if length members \<ge> 2
      then if \<exists>i \<in> set members. length original_indices \<le> i then Inl IndexError
           else Inr (fst state + 1,
                     assign_component original_indices (sim_group (fst state + 1)) members (snd state))
      else Inr state)"

fun accept_clusters :: "nat list \<Rightarrow> (int \<times> nat list) list \<Rightarrow> nat \<times> (nat \<times> string) list \<Rightarrow>
    error + nat \<times> (nat \<times> string) list" where
  "accept_clusters original_indices [] state = Inr state"
| "accept_clusters original_indices ((label, members) # rest) state =
     (case accept_cluster original_indices members state of
        Inl e \<Rightarrow> Inl e
      | Inr state' \<Rightarrow> accept_clusters original_indices rest state')"

text \<open>
  The filter on empty texts,
  \<open>[(i, idx, text) for i, (idx, text) in enumerate(zip(indices, texts)) if text.strip()]\<close>.
\<close>

definition valid_data :: "(nat \<times> question) list \<Rightarrow> (nat \<times> nat \<times> string) list" where
  "valid_data questions_with_indices =
     (let indices = map fst questions_with_indices;
          texts = map (\<lambda>(idx, q). get_question_text q) questions_with_indices
      in filter (\<lambda>(i, idx, text). strip_nonempty text) (List.enumerate 0 (zip indices texts)))"

text \<open>
  \<open>find_similarity_groups\<close>. The HDBSCAN of Stage 1 is configured with the caller's
  \<open>min_cluster_size\<close>, \<open>min_samples=1\<close> and the selection method \<open>eom\<close>. The result is the
  dict \<open>verified_clusters\<close> from record index to label.
\<close>

definition find_similarity_groups :: "'v clusterer \<Rightarrow> (nat \<times> question) list \<Rightarrow> 'v bi_encoder \<Rightarrow>
    cross_encoder option \<Rightarrow> int \<Rightarrow> real \<Rightarrow> bool \<Rightarrow> error + (nat \<times> string) list" where
  "find_similarity_groups hdbscan questions_with_indices bi_encoder cross_encoder
      min_cluster_size cross_encoder_threshold use_cross_encoder =
     (if questions_with_indices = [] then Inr []
      else if length (valid_data questions_with_indices) < 2 then Inr []
      else
        let original_indices = map (\<lambda>(i, idx, text). idx) (valid_data questions_with_indices);
            valid_texts = map (\<lambda>(i, idx, text). text) (valid_data questions_with_indices);
            prepared_texts = map prepare_e5_text valid_texts;
            embeddings = bi_encoder prepared_texts;
            cluster_labels = hdbscan min_cluster_size 1 Eom embeddings;
            clusters = group_by_cluster (List.enumerate 0 cluster_labels) []
        in case (if use_cross_encoder then cross_encoder else None) of
             Some ce \<Rightarrow>
               (case verify_clusters ce cross_encoder_threshold valid_texts original_indices
                       clusters (0, []) of
                  Inl e \<Rightarrow> Inl e
                | Inr (cluster_id, verified_clusters) \<Rightarrow> Inr verified_clusters)
           | None \<Rightarrow>
               (case accept_clusters original_indices clusters (0, []) of
                  Inl e \<Rightarrow> Inl e
                | Inr (cluster_id, verified_clusters) \<Rightarrow> Inr verified_clusters))"

text \<open>
  \<open>run_stage1\<close> mutates the list of questions; the model returns the new list. When
  \<open>find_similarity_groups\<close> raises, no question has been written. The progress messages
  of Stage 1 are not modelled.
\<close>

definition eligible :: "question \<Rightarrow> bool" where
  "eligible q = (success q \<and> data q \<noteq> None)"

definition apply_assignments :: "(nat \<times> string) list \<Rightarrow> question list \<Rightarrow> question list" where
  "apply_assignments similarity_map questions =
     map (\<lambda>(idx, question).
            question\<lparr>similarity_group_id :=
              (case map_of similarity_map idx of None \<Rightarrow> Null | Some l \<Rightarrow> Label l)\<rparr>)
         (List.enumerate 0 questions)"

definition run_stage1 :: "'v clusterer \<Rightarrow> question list \<Rightarrow> 'v bi_encoder \<Rightarrow> cross_encoder option \<Rightarrow>
    int \<Rightarrow> real \<Rightarrow> bool \<Rightarrow> error + question list" where
  "run_stage1 hdbscan questions bi_encoder cross_encoder min_cluster_size
      cross_encoder_threshold use_cross_encoder =
     (let questions_with_indices =
            filter (\<lambda>(idx, q). eligible q) (List.enumerate 0 questions)
      in case find_similarity_groups hdbscan questions_with_indices bi_encoder cross_encoder
                min_cluster_size cross_encoder_threshold use_cross_encoder of
           Inl e \<Rightarrow> Inl e
         | Inr similarity_map \<Rightarrow> Inr (apply_assignments similarity_map questions))"

subsection \<open>Stage 2\<close>

text \<open>
  \<open>find_large_groups\<close>: the indices of the records of each label, for the labels that are
  true in Python (not \<open>None\<close>, not the empty string), keeping the groups of more than
  \<open>min_size\<close> members.
\<close>

fun collect_groups :: "(nat \<times> question) list \<Rightarrow> (string \<times> nat list) list \<Rightarrow> (string \<times> nat list) list" where
  "collect_groups [] groups = groups"
| "collect_groups ((idx, q) # rest) groups =
     collect_groups rest
       (case get_group_id q of
          None \<Rightarrow> groups
        | Some group_id \<Rightarrow>
            if group_id \<noteq> [] then AList.update group_id (cluster_get groups group_id @ [idx]) groups
            else groups)"

definition find_large_groups :: "question list \<Rightarrow> int \<Rightarrow> (string \<times> nat list) list" where
  "find_large_groups questions min_size =
     filter (\<lambda>(gid, indices). int (length indices) > min_size)
       (collect_groups (List.enumerate 0 questions) [])"

text \<open>
  SciPy's \<open>squareform\<close>, \<open>linkage(method='average')\<close> and
  \<open>fcluster(criterion='distance')\<close> are one external function from the distance matrix and
  the cut to one flat cluster number for each row.
\<close>

type_synonym hierarchy = "real list list \<Rightarrow> real \<Rightarrow> nat list"

text \<open>
  The similarity matrix: \<open>np.zeros((n, n))\<close>, the two writes for each scored pair and
  \<open>np.fill_diagonal(sim_matrix, 1.0)\<close>; then \<open>np.clip(1 - sim_matrix, 0, 1)\<close>.
\<close>

definition set_entry :: "real list list \<Rightarrow> nat \<Rightarrow> nat \<Rightarrow> real \<Rightarrow> real list list" where
  "set_entry m i j v = m[i := (m ! i)[j := v]]"

fun fill_sim_matrix :: "((nat \<times> nat) \<times> real) list \<Rightarrow> real list list \<Rightarrow> real list list" where
  "fill_sim_matrix [] sim_matrix = sim_matrix"
| "fill_sim_matrix (((i, j), score) # rest) sim_matrix =
     fill_sim_matrix rest (set_entry (set_entry sim_matrix i j score) j i score)"

definition fill_diagonal :: "real list list \<Rightarrow> real \<Rightarrow> real list list" where
  "fill_diagonal m v = map (\<lambda>(i, row). row[i := v]) (List.enumerate 0 m)"

definition dist_matrix :: "cross_encoder \<Rightarrow> string list \<Rightarrow> nat \<Rightarrow> real list list" where
  "dist_matrix ce texts n =
     (let pair_idx = pair_indices n;
          scores = predict ce (text_pairs texts pair_idx);
          sim_matrix = fill_diagonal
            (fill_sim_matrix (zip pair_idx scores) (replicate n (replicate n 0))) 1
      in map (map (\<lambda>s. min 1 (max 0 (1 - s)))) sim_matrix)"

text \<open>
  The dict comprehension \<open>{indices[i]: int(label) for i, label in enumerate(cluster_labels)}\<close>
  and the counting loop \<open>group_counts[label] += 1\<close>.
\<close>

fun build_assignments :: "nat list \<Rightarrow> (nat \<times> nat) list \<Rightarrow> (nat \<times> nat) list \<Rightarrow> (nat \<times> nat) list" where
  "build_assignments indices [] assignments = assignments"
| "build_assignments indices ((i, label) # rest) assignments =
     build_assignments indices rest (AList.update (indices ! i) label assignments)"

fun count_groups :: "nat list \<Rightarrow> (nat \<times> nat) list \<Rightarrow> (nat \<times> nat) list" where
  "count_groups [] group_counts = group_counts"
| "count_groups (label # rest) group_counts =
     count_groups rest
       (AList.update label
          ((case map_of group_counts label of None \<Rightarrow> 0 | Some c \<Rightarrow> c) + 1) group_counts)"

text \<open>
  \<open>try_split_with_cross_encoder\<close>, the hierarchical fallback. The result is
  \<open>Optional[dict[int, int]]\<close>. Reading \<open>texts[i]\<close> raises \<open>IndexError\<close> when there are
  fewer texts than indices, and \<open>indices[i]\<close> when the cut returns more labels than there
  are indices. The argument \<open>questions\<close> is not used by the code.
\<close>

definition try_split_with_cross_encoder :: "hierarchy \<Rightarrow> question list \<Rightarrow> nat list \<Rightarrow> string list \<Rightarrow>
    cross_encoder \<Rightarrow> real \<Rightarrow> error + (nat \<times> nat) list option" where
  "try_split_with_cross_encoder fcluster questions indices texts ce threshold =
     (let n = length indices
      in if n < 4 then Inr None
         else if length texts < n then Inl IndexError
         else
           let cluster_labels = fcluster (dist_matrix ce texts n) (1 - threshold)
           in if length (remdups cluster_labels) \<le> 1 then Inr None
              else if n < length cluster_labels then Inl IndexError
              else
                let assignments = build_assignments indices (List.enumerate 0 cluster_labels) [];
                    group_counts = count_groups (map snd assignments) [];
                    valid_groups = map fst (filter (\<lambda>(l, c). c \<ge> 2) group_counts)
                in if length valid_groups \<le> 1 then Inr None
                   else
                     let filtered = filter (\<lambda>(idx, label). label \<in> set valid_groups) assignments
                     in if length (remdups (map snd filtered)) > 1 then Inr (Some filtered)
                        else Inr None)"

text \<open>\<open>for label, members in clusters.items()\<close> in \<open>try_split_group\<close>.\<close>

fun verify_sub_clusters :: "cross_encoder \<Rightarrow> real \<Rightarrow> string list \<Rightarrow> nat list \<Rightarrow> (int \<times> nat list) list \<Rightarrow>
    nat \<times> (nat \<times> nat) list \<Rightarrow> error + nat \<times> (nat \<times> nat) list" where
  "verify_sub_clusters ce threshold texts indices [] state = Inr state"
| "verify_sub_clusters ce threshold texts indices ((label, members) # rest) state =
     (case verify_sub_cluster ce threshold texts indices members state of
        Inl e \<Rightarrow> Inl e
      | Inr state' \<Rightarrow> verify_sub_clusters ce threshold texts indices rest state')"

text \<open>
  \<open>try_split_group\<close>. The HDBSCAN of Stage 2 is configured with \<open>min_cluster_size=2\<close>,
  \<open>min_samples=2\<close> and the selection method \<open>leaf\<close>. \<open>questions[i]\<close> raises \<open>IndexError\<close>
  on an index out of range.
\<close>

definition try_split_group :: "'v clusterer \<Rightarrow> hierarchy \<Rightarrow> question list \<Rightarrow> nat list \<Rightarrow> 'v bi_encoder \<Rightarrow>
    cross_encoder \<Rightarrow> real \<Rightarrow> error + (nat \<times> nat) list option" where
  "try_split_group hdbscan fcluster questions indices bi_encoder ce cross_encoder_threshold =
     (if length indices < 4 then Inr None
      else if \<exists>i \<in> set indices. length questions \<le> i then Inl IndexError
      else
        let texts = map (\<lambda>i. get_question_text (questions ! i)) indices;
            prepared_texts = map prepare_e5_text texts;
            embeddings = bi_encoder prepared_texts;
            cluster_labels = hdbscan 2 2 Leaf embeddings;
            unique_labels = remdups (filter (\<lambda>l. l \<noteq> - 1) cluster_labels)
        in if length unique_labels \<le> 1
           then try_split_with_cross_encoder fcluster questions indices texts ce
                  cross_encoder_threshold
           else
             let clusters = group_by_cluster (List.enumerate 0 cluster_labels) []
             in case verify_sub_clusters ce cross_encoder_threshold texts indices clusters (0, []) of
                  Inl e \<Rightarrow> Inl e
                | Inr (sub_group_counter, verified_assignments) \<Rightarrow>
                    if length (remdups (map snd verified_assignments)) > 1
                    then Inr (Some verified_assignments) else Inr None)"

text \<open>
  The two writing loops of \<open>run_stage2\<close>. Every index they write comes from
  \<open>find_large_groups\<close> and is in range.
\<close>

fun write_sub_labels :: "string \<Rightarrow> (nat \<times> nat) list \<Rightarrow> question list \<Rightarrow> question list" where
  "write_sub_labels group_id [] questions = questions"
| "write_sub_labels group_id ((idx, sub_group_num) # rest) questions =
     write_sub_labels group_id rest
       (questions[idx := (questions ! idx)\<lparr>similarity_group_id :=
                            Label (sub_label group_id sub_group_num)\<rparr>])"

fun clear_unassigned :: "(nat \<times> nat) list \<Rightarrow> nat list \<Rightarrow> question list \<Rightarrow> question list" where
  "clear_unassigned split_result [] questions = questions"
| "clear_unassigned split_result (idx # rest) questions =
     clear_unassigned split_result rest
       (if map_of split_result idx = None
        then questions[idx := (questions ! idx)\<lparr>similarity_group_id := Null\<rparr>]
        else questions)"

text \<open>
  The body of \<open>for group_id, indices in large_groups.items()\<close>, with the state
  \<open>(questions, groups_split, groups_kept)\<close>. \<open>if split_result and ...\<close> is false for
  \<open>None\<close> and for the empty dict.
\<close>

fun refine_group :: "'v clusterer \<Rightarrow> hierarchy \<Rightarrow> 'v bi_encoder \<Rightarrow> cross_encoder \<Rightarrow> real \<Rightarrow>
    string \<times> nat list \<Rightarrow> question list \<times> nat \<times> nat \<Rightarrow> error + question list \<times> nat \<times> nat" where
  "refine_group hdbscan fcluster bi_encoder ce threshold (group_id, indices)
      (questions, groups_split, groups_kept) =
     (case try_split_group hdbscan fcluster questions indices bi_encoder ce threshold of
        Inl e \<Rightarrow> Inl e
      | Inr None \<Rightarrow> Inr (questions, groups_split, groups_kept + 1)
      | Inr (Some split_result) \<Rightarrow>
          if split_result \<noteq> [] \<and> length (remdups (map snd split_result)) > 1
          then Inr (clear_unassigned split_result indices
                      (write_sub_labels group_id split_result questions),
                    groups_split + 1, groups_kept)
          else Inr (questions, groups_split, groups_kept + 1))"

fun refine_groups :: "'v clusterer \<Rightarrow> hierarchy \<Rightarrow> 'v bi_encoder \<Rightarrow> cross_encoder \<Rightarrow> real \<Rightarrow>
    (string \<times> nat list) list \<Rightarrow> question list \<times> nat \<times> nat \<Rightarrow> error + question list \<times> nat \<times> nat" where
  "refine_groups hdbscan fcluster bi_encoder ce threshold [] state = Inr state"
| "refine_groups hdbscan fcluster bi_encoder ce threshold (large_group # rest) state =
     (case refine_group hdbscan fcluster bi_encoder ce threshold large_group state of
        Inl e \<Rightarrow> Inl e
      | Inr state' \<Rightarrow> refine_groups hdbscan fcluster bi_encoder ce threshold rest state')"

text \<open>
  \<open>run_stage2\<close>. It is declared \<open>-> None\<close>: on every path the value returned to the caller
  is \<open>None\<close>. The model returns what the caller can observe: the mutated list of
  questions, the lines printed to the standard output (one entry for each \<open>print\<close> call;
  the progress bar goes to the standard error) and the returned value, which would hold
  the two counts if the code returned them.
\<close>

definition str_int :: "int \<Rightarrow> string" where
  "str_int i = (if i < 0 then ''-'' @ str_nat (nat (- i)) else str_nat (nat i))"

record stage2_result =
  questions_after :: "question list"
  stdout :: "string list"
  returned :: "(nat \<times> nat) option"

definition run_stage2 :: "'v clusterer \<Rightarrow> hierarchy \<Rightarrow> question list \<Rightarrow> 'v bi_encoder \<Rightarrow> cross_encoder \<Rightarrow>
    int \<Rightarrow> real \<Rightarrow> error + stage2_result" where
  "run_stage2 hdbscan fcluster questions bi_encoder ce refine_threshold
      refine_cross_encoder_threshold =
     (let large_groups = find_large_groups questions refine_threshold
      in if large_groups = []
         then Inr \<lparr>questions_after = questions,
                   stdout = [[CHR 0x0A] @ ''No groups larger than '' @ str_int refine_threshold
                               @ '' items. Skipping refinement.''],
                   returned = None\<rparr>
         else
           case refine_groups hdbscan fcluster bi_encoder ce refine_cross_encoder_threshold
                  large_groups (questions, 0, 0) of
             Inl e \<Rightarrow> Inl e
           | Inr (questions', groups_split, groups_kept) \<Rightarrow>
               Inr \<lparr>questions_after = questions',
                     stdout =
                       [[CHR 0x0A] @ replicate 60 CHR ''='',
                        ''STAGE 2: Refining Large Groups'',
                        replicate 60 CHR ''='',
                        ''Found '' @ str_nat (length large_groups) @ '' groups to refine (>''
                          @ str_int refine_threshold @ '' items)'',
                        [CHR 0x0A] @ ''Refinement complete: '' @ str_nat groups_split
                          @ '' split, '' @ str_nat groups_kept @ '' kept as-is''],
                     returned = None\<rparr>)"

subsection \<open>Specification-level notions\<close>

text \<open>
  The graph stored in an adjacency dict, as a relation on the local indices of a cluster.
\<close>

definition nbr :: "adjacency \<Rightarrow> (nat \<times> nat) set" where
  "nbr adjacency = {(x, y). y \<in> set (adj_get adjacency x)}"

text \<open>
  Proof devices: the two component loops differ only in the skip test and in what they
  write, so both are split into the list of components they find (\<open>found_components\<close>,
  with a flag for the skip test of Stage 1) and the writing of the labels
  (\<open>label_components\<close>).
\<close>

fun found_components :: "bool \<Rightarrow> adjacency \<Rightarrow> nat list \<Rightarrow> nat list \<Rightarrow> nat set \<Rightarrow> nat list list" where
  "found_components skip A M [] V = []"
| "found_components skip A M (start # starts) V =
     (if start \<in> V \<or> (skip \<and> adj_get A start = []) then found_components skip A M starts V
      else case bfs A M [start] V [] of
        (V', c) \<Rightarrow> (if length c \<ge> 2 then [c] else []) @ found_components skip A M starts V')"

fun label_components :: "nat list \<Rightarrow> (nat \<Rightarrow> 'a) \<Rightarrow> nat \<Rightarrow> nat list list \<Rightarrow> (nat \<times> 'a) list \<Rightarrow> nat \<times> (nat \<times> 'a) list" where
  "label_components keys mk c [] vc = (c, vc)"
| "label_components keys mk c (component # comps) vc =
     label_components keys mk (c + 1) comps (assign_component keys (mk (c + 1)) component vc)"

text \<open>
  What the list of found components, given as lists of local indices, satisfies: the
  components are disjoint and new, each has at least two nodes and is the set of nodes
  reachable from one of the starts, and every unvisited start with a neighbour is covered.
\<close>

definition found_ok :: "adjacency \<Rightarrow> nat list \<Rightarrow> nat set \<Rightarrow> nat list list \<Rightarrow> bool" where
  "found_ok A starts V nss \<longleftrightarrow>
     distinct (concat nss) \<and> set (concat nss) \<inter> V = {} \<and>
     (\<forall>ns \<in> set nss. 2 \<le> length ns \<and> (\<exists>s \<in> set starts. set ns = (nbr A)\<^sup>* `` {s})) \<and>
     (\<forall>s \<in> set starts. s \<notin> V \<and> (\<exists>y. y \<noteq> s \<and> (s, y) \<in> nbr A) \<longrightarrow> s \<in> set (concat nss))"

text \<open>
  What the labels written for one cluster satisfy, for a graph \<open>R\<close> on the local indices
  below \<open>n\<close>, the key \<open>key i\<close> of the record of member \<open>i\<close> and the label \<open>mk k\<close> of group
  number \<open>k\<close>: an isolated member's entry is not written, every other member gets a label
  numbered after \<open>c\<close> and up to \<open>c'\<close>, two such members share a label exactly when they
  are connected in \<open>R\<close>, and no other key is written.
\<close>

definition labelled_ok ::
  "(nat \<times> nat) set \<Rightarrow> nat \<Rightarrow> (nat \<Rightarrow> nat) \<Rightarrow> (nat \<Rightarrow> 'a) \<Rightarrow> nat \<Rightarrow> (nat \<rightharpoonup> 'a) \<Rightarrow> nat \<Rightarrow> (nat \<rightharpoonup> 'a) \<Rightarrow> bool" where
  "labelled_ok R n key mk c before c' after \<longleftrightarrow>
     (\<forall>i < n.
        (R `` {i} = {} \<longrightarrow> after (key i) = before (key i)) \<and>
        (R `` {i} \<noteq> {} \<longrightarrow> (\<exists>k. c < k \<and> k \<le> c' \<and> after (key i) = Some (mk k))) \<and>
        (\<forall>j < n. R `` {i} \<noteq> {} \<and> R `` {j} \<noteq> {} \<longrightarrow>
           (after (key i) = after (key j)) = ((i, j) \<in> R\<^sup>*))) \<and>
     (\<forall>k. k \<notin> key ` {..<n} \<longrightarrow> after k = before k)"

text \<open>
  The score of the unordered pair of members \<open>i\<close> and \<open>j\<close>: the code scores each pair once,
  the member at the lower position first. The verification graph has an edge between two
  distinct members exactly when that score reaches the threshold.
\<close>

definition pair_score :: "cross_encoder \<Rightarrow> string list \<Rightarrow> nat \<Rightarrow> nat \<Rightarrow> real" where
  "pair_score ce member_texts i j = ce (member_texts ! min i j) (member_texts ! max i j)"

definition verification_edges :: "cross_encoder \<Rightarrow> real \<Rightarrow> string list \<Rightarrow> (nat \<times> nat) set" where
  "verification_edges ce threshold member_texts =
     {(i, j). i < length member_texts \<and> j < length member_texts \<and> i \<noteq> j \<and>
        threshold \<le> pair_score ce member_texts i j}"

text \<open>
  The graph of the bounded pass of Stage 2: only members whose positions differ by at most
  50 can be joined by an edge.
\<close>

definition bounded_edges :: "cross_encoder \<Rightarrow> real \<Rightarrow> string list \<Rightarrow> (nat \<times> nat) set" where
  "bounded_edges ce threshold member_texts =
     {(i, j). i < length member_texts \<and> j < length member_texts \<and> i \<noteq> j \<and>
        i \<le> j + 50 \<and> j \<le> i + 50 \<and> threshold \<le> pair_score ce member_texts i j}"

text \<open>
  The minimum group size, on an assignment of labels to keys: whoever carries a label
  shares it with somebody else.
\<close>

definition shared_labels :: "('k \<rightharpoonup> 'l) \<Rightarrow> bool" where
  "shared_labels m \<longleftrightarrow> (\<forall>k l. m k = Some l \<longrightarrow> (\<exists>k'. k' \<noteq> k \<and> m k' = Some l))"

text \<open>
  What the theorems assume of the libraries: the embedding model returns one vector for
  each text and HDBSCAN one label for each vector.
\<close>

definition encoder_ok :: "'v bi_encoder \<Rightarrow> bool" where
  "encoder_ok bi_encoder \<longleftrightarrow> (\<forall>texts. length (bi_encoder texts) = length texts)"

definition clusterer_ok :: "'v clusterer \<Rightarrow> bool" where
  "clusterer_ok hdbscan \<longleftrightarrow>
     (\<forall>min_cluster_size min_samples selection embeddings.
        length (hdbscan min_cluster_size min_samples selection embeddings) = length embeddings)"

text \<open>Two question dicts that agree on everything but the group label.\<close>

definition same_payload :: "question \<Rightarrow> question \<Rightarrow> bool" where
  "same_payload q q' \<longleftrightarrow> success q = success q' \<and> data q = data q'"


text \<open>
  The clusters of a dendrogram cut that survive the filter of the hierarchical fallback:
  the cluster numbers carried by at least two points. A result is numbered contiguously
  when its sub-group numbers are exactly \<open>1, \<dots>, k\<close>.
\<close>

definition surviving :: "nat list \<Rightarrow> nat set" where
  "surviving cluster_labels = {l \<in> set cluster_labels. 2 \<le> count_list cluster_labels l}"

definition contiguous_numbers :: "(nat \<times> nat) list \<Rightarrow> bool" where
  "contiguous_numbers split_result \<longleftrightarrow>
     set (map snd split_result) = {1..card (set (map snd split_result))}"

text \<open>What the theorems assume of SciPy: the cut returns one cluster number for each row.\<close>

definition hierarchy_ok :: "hierarchy \<Rightarrow> bool" where
  "hierarchy_ok fcluster \<longleftrightarrow> (\<forall>dist t. length (fcluster dist t) = length dist)"

text \<open>
  The texts of a group, the labels that the fine density pass of Stage 2 gives them, and
  the clusters of that pass that are not noise, \<open>set(cluster_labels) - {-1}\<close>.
\<close>

definition group_texts :: "question list \<Rightarrow> nat list \<Rightarrow> string list" where
  "group_texts questions indices = map (\<lambda>i. get_question_text (questions ! i)) indices"

definition fine_labels :: "'v clusterer \<Rightarrow> 'v bi_encoder \<Rightarrow> question list \<Rightarrow> nat list \<Rightarrow> int list" where
  "fine_labels hdbscan bi_encoder questions indices =
     hdbscan 2 2 Leaf (bi_encoder (map prepare_e5_text (group_texts questions indices)))"

definition fine_clusters :: "int list \<Rightarrow> int set" where
  "fine_clusters cluster_labels = set cluster_labels - {- 1}"

text \<open>The label that each record carries: none for an absent or empty field.\<close>

definition labels_of :: "question list \<Rightarrow> nat \<rightharpoonup> string" where
  "labels_of questions i = (if i < length questions then get_group_id (questions ! i) else None)"

text \<open>The positions of the records that carry the label \<open>g\<close>, in order.\<close>

definition members_of :: "question list \<Rightarrow> string \<Rightarrow> nat list" where
  "members_of questions g =
     map fst (filter (\<lambda>(idx, q). get_group_id q = Some g) (List.enumerate 0 questions))"

text \<open>
  Proof device for the loop of Stage 2: in the assignment \<open>m\<close>, whoever carries a label
  outside the set \<open>U\<close> of records still to be refined shares it with somebody else
  outside \<open>U\<close>.
\<close>

definition settled :: "nat set \<Rightarrow> (nat \<rightharpoonup> string) \<Rightarrow> bool" where
  "settled U m \<longleftrightarrow> (\<forall>i l. i \<notin> U \<and> m i = Some l \<longrightarrow> (\<exists>j. j \<noteq> i \<and> j \<notin> U \<and> m j = Some l))"

subsection \<open>Correctness of the graph construction and of the breadth-first search\<close>

lemma map_of_adj_add:
  "map_of (adj_add A i j) = (map_of A)(i \<mapsto> List.insert j (adj_get A i))"
  unfolding adj_add_def by (rule AList.update_conv')

lemma adj_get_adj_add_same: "adj_get (adj_add A i j) i = List.insert j (adj_get A i)"
  unfolding adj_get_def [of "adj_add A i j"] map_of_adj_add by simp

lemma adj_get_adj_add_other: "x \<noteq> i \<Longrightarrow> adj_get (adj_add A i j) x = adj_get A x"
  unfolding adj_get_def map_of_adj_add by simp

lemma adj_get_adj_add:
  "set (adj_get (adj_add A i j) x) = (if x = i then insert j (set (adj_get A i)) else set (adj_get A x))"
  using adj_get_adj_add_same adj_get_adj_add_other by simp

lemma nbr_adj_add: "nbr (adj_add A i j) = insert (i, j) (nbr A)"
  by (auto simp: nbr_def adj_get_adj_add split: if_splits)

lemma nbr_build_adjacency:
  "nbr (build_adjacency t zs A) =
     nbr A \<union> {(x, y). \<exists>s. ((x, y), s) \<in> set zs \<and> t \<le> s} \<union> {(x, y). \<exists>s. ((y, x), s) \<in> set zs \<and> t \<le> s}"
proof (induction zs arbitrary: A)
  case Nil
  then show ?case by simp
next
  case (Cons z zs)
  obtain i j s where z: "z = ((i, j), s)" by (metis prod.exhaust)
  show ?case unfolding z build_adjacency.simps Cons.IH
    by (auto simp: nbr_adj_add)
qed

lemma nbr_empty: "nbr [] = {}"
  by (simp add: nbr_def adj_get_def)

lemma bfs_visited: "node \<in> V \<Longrightarrow> bfs A M (node # Q) V C = bfs A M Q V C"
  by simp

lemma bfs_fresh:
  "node \<notin> V \<Longrightarrow> bfs A M (node # Q) V C =
     bfs A M (Q @ filter (\<lambda>n. n \<notin> insert node V) (adj_get A node)) (insert node V) (C @ [M ! node])"
  by simp

declare bfs.simps(2) [simp del]

lemma bfs_nodes:
  "bfs A M Q V C = (V', C') \<Longrightarrow>
     \<exists>ns. C' = C @ map ((!) M) ns \<and> distinct ns \<and> set ns = V' - V \<and> V \<subseteq> V' \<and> set Q \<subseteq> V'"
proof (induction A M Q V C rule: bfs.induct)
  case (1 A M V C)
  then have "V' = V" "C' = C" by simp_all
  then have "C' = C @ map ((!) M) [] \<and> distinct ([]::nat list) \<and> set [] = V' - V \<and> V \<subseteq> V' \<and> set [] \<subseteq> V'"
    by simp
  then show ?case by blast
next
  case (2 A M node Q V C)
  show ?case
  proof (cases "node \<in> V")
    case True
    have "bfs A M Q V C = (V', C')" using "2.prems" True by (simp add: bfs_visited)
    from "2.IH"(1) [OF True this] obtain ns where
      ns: "C' = C @ map ((!) M) ns" "distinct ns" "set ns = V' - V" "V \<subseteq> V'" "set Q \<subseteq> V'"
      by blast
    have "set (node # Q) \<subseteq> V'" using ns(4,5) True by auto
    then show ?thesis using ns by blast
  next
    case False
    with "2.prems" have "bfs A M (Q @ filter (\<lambda>n. n \<notin> insert node V) (adj_get A node))
        (insert node V) (C @ [M ! node]) = (V', C')" by (simp add: bfs_fresh)
    from "2.IH"(2) [OF False this] obtain ns where
      ns: "C' = (C @ [M ! node]) @ map ((!) M) ns" "distinct ns" "set ns = V' - insert node V"
        "insert node V \<subseteq> V'"
        "set (Q @ filter (\<lambda>n. n \<notin> insert node V) (adj_get A node)) \<subseteq> V'" by blast
    have "C' = C @ map ((!) M) (node # ns)" using ns(1) by simp
    moreover have "distinct (node # ns)" using ns(2,3) by auto
    moreover have "set (node # ns) = V' - V" using ns(3,4) False by auto
    moreover have "V \<subseteq> V'" using ns(4) by auto
    moreover have "set (node # Q) \<subseteq> V'" using ns(4,5) by auto
    ultimately show ?thesis by blast
  qed
qed

lemma bfs_inv:
  assumes "bfs A M Q V C = (V', C')"
    and "V - V0 \<subseteq> S" and "set Q \<subseteq> S"
    and "\<forall>x \<in> V - V0. \<forall>y. (x, y) \<in> nbr A \<longrightarrow> y \<in> V \<union> set Q"
    and "nbr A `` S \<subseteq> S"
  shows "V' - V0 \<subseteq> S \<and> (\<forall>x \<in> V' - V0. \<forall>y. (x, y) \<in> nbr A \<longrightarrow> y \<in> V')"
  using assms
proof (induction A M Q V C rule: bfs.induct)
  case (1 A M V C)
  then show ?case by auto
next
  case (2 A M node Q V C)
  show ?case
  proof (cases "node \<in> V")
    case True
    have "bfs A M Q V C = (V', C')" using "2.prems"(1) True by (simp add: bfs_visited)
    moreover have "\<forall>x \<in> V - V0. \<forall>y. (x, y) \<in> nbr A \<longrightarrow> y \<in> V \<union> set Q"
      using "2.prems"(4) True by auto
    ultimately show ?thesis using "2.IH"(1) [OF True] "2.prems"(2,3,5) by simp
  next
    case False
    let ?Q = "Q @ filter (\<lambda>n. n \<notin> insert node V) (adj_get A node)"
    have run: "bfs A M ?Q (insert node V) (C @ [M ! node]) = (V', C')"
      using "2.prems"(1) False by (simp add: bfs_fresh)
    have nS: "node \<in> S" using "2.prems"(3) by simp
    have a: "insert node V - V0 \<subseteq> S" using "2.prems"(2) nS by auto
    have nb: "set (adj_get A node) \<subseteq> S"
      using nS "2.prems"(5) by (auto simp: nbr_def)
    have b: "set ?Q \<subseteq> S" using "2.prems"(3) nb by auto
    have c: "\<forall>x \<in> insert node V - V0. \<forall>y. (x, y) \<in> nbr A \<longrightarrow> y \<in> insert node V \<union> set ?Q"
    proof (intro ballI allI impI)
      fix x y assume x: "x \<in> insert node V - V0" and xy: "(x, y) \<in> nbr A"
      show "y \<in> insert node V \<union> set ?Q"
      proof (cases "x = node")
        case True
        then have "y \<in> set (adj_get A node)" using xy by (simp add: nbr_def)
        then show ?thesis by auto
      next
        case False
        then have "x \<in> V - V0" using x by auto
        then have "y \<in> V \<union> set (node # Q)" using "2.prems"(4) xy by blast
        then show ?thesis by auto
      qed
    qed
    show ?thesis using "2.IH"(2) [OF False run a b c "2.prems"(5)] .
  qed
qed

lemma closed_sym_disjoint:
  assumes "sym R" and "R `` V0 \<subseteq> V0" and "s \<notin> V0"
  shows "R\<^sup>* `` {s} \<inter> V0 = {}"
proof -
  have "R\<^sup>* `` V0 = V0" using assms(2) by (rule Image_closed_trancl)
  moreover have "sym (R\<^sup>*)" using assms(1) by (rule sym_rtrancl)
  ultimately show ?thesis using assms(3) by (auto dest: symD)
qed

lemma bfs_start:
  assumes run: "bfs A M [s] V0 [] = (V', C')"
    and sym: "sym (nbr A)" and closed: "nbr A `` V0 \<subseteq> V0" and s: "s \<notin> V0"
  shows "\<exists>ns. C' = map ((!) M) ns \<and> distinct ns \<and> set ns = (nbr A)\<^sup>* `` {s}
           \<and> V' = V0 \<union> (nbr A)\<^sup>* `` {s} \<and> (nbr A)\<^sup>* `` {s} \<inter> V0 = {}"
proof -
  let ?S = "(nbr A)\<^sup>* `` {s}"
  from bfs_nodes [OF run] obtain ns where
    ns: "C' = map ((!) M) ns" "distinct ns" "set ns = V' - V0" "V0 \<subseteq> V'" "s \<in> V'" by auto
  have Sclosed: "nbr A `` ?S \<subseteq> ?S" by (auto intro: rtrancl_into_rtrancl)
  have inv: "V' - V0 \<subseteq> ?S \<and> (\<forall>x \<in> V' - V0. \<forall>y. (x, y) \<in> nbr A \<longrightarrow> y \<in> V')"
    by (rule bfs_inv [OF run _ _ _ Sclosed]) auto
  have disj: "?S \<inter> V0 = {}" by (rule closed_sym_disjoint [OF sym closed s])
  have "y \<in> V'" if "(s, y) \<in> (nbr A)\<^sup>*" for y
    using that
  proof (induction rule: rtrancl_induct)
    case base
    then show ?case using ns(5) .
  next
    case (step y z)
    have "y \<notin> V0" using disj step.hyps(1) by auto
    then show ?case using inv step by blast
  qed
  then have "?S \<subseteq> V'" by auto
  then have "V' - V0 = ?S" using inv disj by auto
  then show ?thesis using ns disj by auto
qed

lemma components_loop_fission:
  "snd (components_loop A M OI starts (V, cid, vc)) =
     label_components OI sim_group cid (found_components True A M starts V) vc"
proof (induction starts arbitrary: V cid vc)
  case Nil
  then show ?case by simp
next
  case (Cons start starts)
  show ?case
  proof (cases "start \<in> V \<or> adj_get A start = []")
    case True
    then show ?thesis using Cons.IH by simp
  next
    case False
    obtain V' c where b: "bfs A M [start] V [] = (V', c)" by (cases "bfs A M [start] V []")
    show ?thesis using False b Cons.IH by simp
  qed
qed

lemma sub_components_loop_fission:
  "snd (sub_components_loop A M I starts (V, cnt, va)) =
     label_components I (\<lambda>k. k) cnt (found_components False A M starts V) va"
proof (induction starts arbitrary: V cnt va)
  case Nil
  then show ?case by simp
next
  case (Cons start starts)
  show ?case
  proof (cases "start \<in> V")
    case True
    then show ?thesis using Cons.IH by simp
  next
    case False
    obtain V' c where b: "bfs A M [start] V [] = (V', c)" by (cases "bfs A M [start] V []")
    show ?thesis using False b Cons.IH by simp
  qed
qed

lemma found_components_skip:
  "start \<in> V \<or> (skip \<and> adj_get A start = []) \<Longrightarrow>
     found_components skip A M (start # starts) V = found_components skip A M starts V"
  by (cases skip) auto

lemma found_components_step:
  "\<not> (start \<in> V \<or> (skip \<and> adj_get A start = [])) \<Longrightarrow> bfs A M [start] V [] = (V', c) \<Longrightarrow>
     found_components skip A M (start # starts) V =
       (if 2 \<le> length c then [c] else []) @ found_components skip A M starts V'"
  by (cases skip) auto

declare found_components.simps(2) [simp del]

lemma found_components_char:
  assumes "sym (nbr A)" and "nbr A `` V \<subseteq> V"
  shows "\<exists>nss. found_components skip A M starts V = map (map ((!) M)) nss \<and> found_ok A starts V nss"
  using assms(2)
proof (induction starts arbitrary: V)
  case Nil
  have "found_ok A [] V []" by (simp add: found_ok_def)
  then show ?case by (intro exI [of _ "[]"]) simp
next
  case (Cons start starts)
  let ?R = "nbr A"
  show ?case
  proof (cases "start \<in> V \<or> (skip \<and> adj_get A start = [])")
    case True
    from Cons.IH [OF Cons.prems] obtain nss where
      eq: "found_components skip A M starts V = map (map ((!) M)) nss" and ok: "found_ok A starts V nss"
      by blast
    have nonbr: "\<not> (start \<notin> V \<and> (\<exists>y. y \<noteq> start \<and> (start, y) \<in> ?R))"
      using True by (auto simp: nbr_def)
    have "found_ok A (start # starts) V nss"
      using ok nonbr unfolding found_ok_def by auto
    moreover have "found_components skip A M (start # starts) V = map (map ((!) M)) nss"
      using found_components_skip [OF True] eq by simp
    ultimately show ?thesis by blast
  next
    case False
    then have sV: "start \<notin> V" by simp
    obtain V' c where b: "bfs A M [start] V [] = (V', c)" by (cases "bfs A M [start] V []")
    let ?S = "?R\<^sup>* `` {start}"
    from bfs_start [OF b assms(1) Cons.prems sV] obtain ns0 where
      ns0: "c = map ((!) M) ns0" "distinct ns0" "set ns0 = ?S" "V' = V \<union> ?S" "?S \<inter> V = {}"
      by blast
    have closed': "?R `` V' \<subseteq> V'"
      using Cons.prems ns0(4) by (auto intro: rtrancl_into_rtrancl)
    from Cons.IH [OF closed'] obtain nss where
      eq: "found_components skip A M starts V' = map (map ((!) M)) nss" and ok: "found_ok A starts V' nss"
      by blast
    have ok1: "distinct (concat nss)" "set (concat nss) \<inter> V' = {}"
      "\<forall>ns \<in> set nss. 2 \<le> length ns \<and> (\<exists>s \<in> set starts. set ns = ?R\<^sup>* `` {s})"
      "\<forall>s \<in> set starts. s \<notin> V' \<and> (\<exists>y. y \<noteq> s \<and> (s, y) \<in> ?R) \<longrightarrow> s \<in> set (concat nss)"
      using ok unfolding found_ok_def by blast+
    have big: "2 \<le> length ns0" if "s \<in> ?S" "y \<noteq> s" "(s, y) \<in> ?R" for s y
    proof -
      have "y \<in> ?S" using that(1,3) by (auto intro: rtrancl_into_rtrancl)
      then have "{s, y} \<subseteq> set ns0" using that(1) ns0(3) by simp
      then have "card {s, y} \<le> card (set ns0)" by (intro card_mono) auto
      then have "2 \<le> card (set ns0)" using that(2) by simp
      then show ?thesis using ns0(2) by (simp add: distinct_card)
    qed
    have len: "length c = length ns0" using ns0(1) by simp
    show ?thesis
    proof (cases "2 \<le> length c")
      case True
      let ?nss = "ns0 # nss"
      have "found_components skip A M (start # starts) V = map (map ((!) M)) ?nss"
        using found_components_step [OF False b] True eq ns0(1) by simp
      moreover have "found_ok A (start # starts) V ?nss"
        unfolding found_ok_def
      proof (intro conjI)
        show "distinct (concat ?nss)" using ns0(2,3,4) ok1(1,2) by auto
        show "set (concat ?nss) \<inter> V = {}" using ns0(3,4,5) ok1(2) by auto
        show "\<forall>ns \<in> set ?nss. 2 \<le> length ns \<and> (\<exists>s \<in> set (start # starts). set ns = ?R\<^sup>* `` {s})"
          using True len ns0(3) ok1(3) by auto
        show "\<forall>s \<in> set (start # starts). s \<notin> V \<and> (\<exists>y. y \<noteq> s \<and> (s, y) \<in> ?R) \<longrightarrow> s \<in> set (concat ?nss)"
        proof (intro ballI impI)
          fix s assume s: "s \<in> set (start # starts)" and h: "s \<notin> V \<and> (\<exists>y. y \<noteq> s \<and> (s, y) \<in> ?R)"
          show "s \<in> set (concat ?nss)"
          proof (cases "s \<in> ?S")
            case True
            then show ?thesis using ns0(3) by simp
          next
            case False
            then have "s \<noteq> start" by auto
            then have "s \<in> set starts" using s by simp
            moreover have "s \<notin> V'" using False h ns0(4) by simp
            ultimately have "s \<in> set (concat nss)" using ok1(4) h by blast
            then show ?thesis by simp
          qed
        qed
      qed
      ultimately show ?thesis by blast
    next
      case small: False
      have "found_components skip A M (start # starts) V = map (map ((!) M)) nss"
        using found_components_step [OF False b] small eq by simp
      moreover have "found_ok A (start # starts) V nss"
        unfolding found_ok_def
      proof (intro conjI)
        show "distinct (concat nss)" by (rule ok1(1))
        show "set (concat nss) \<inter> V = {}" using ok1(2) ns0(4) by auto
        show "\<forall>ns \<in> set nss. 2 \<le> length ns \<and> (\<exists>s \<in> set (start # starts). set ns = ?R\<^sup>* `` {s})"
          using ok1(3) by auto
        show "\<forall>s \<in> set (start # starts). s \<notin> V \<and> (\<exists>y. y \<noteq> s \<and> (s, y) \<in> ?R) \<longrightarrow> s \<in> set (concat nss)"
        proof (intro ballI impI)
          fix s assume s: "s \<in> set (start # starts)" and h: "s \<notin> V \<and> (\<exists>y. y \<noteq> s \<and> (s, y) \<in> ?R)"
          have nS: "s \<notin> ?S" using big h small len by auto
          then have "s \<noteq> start" by auto
          then have "s \<in> set starts" using s by simp
          moreover have "s \<notin> V'" using nS h ns0(4) by simp
          ultimately show "s \<in> set (concat nss)" using ok1(4) h by blast
        qed
      qed
      ultimately show ?thesis by blast
    qed
  qed
qed

lemma map_of_assign_component:
  "map_of (assign_component keys v c vc) k = (if k \<in> (!) keys ` set c then Some v else map_of vc k)"
proof (induction c arbitrary: vc)
  case Nil
  then show ?case by simp
next
  case (Cons x c)
  show ?case unfolding assign_component.simps Cons.IH
    by (simp add: AList.update_conv')
qed

lemma distinct_concat_index:
  "distinct (concat nss) \<Longrightarrow> a < length nss \<Longrightarrow> b < length nss \<Longrightarrow>
     x \<in> set (nss ! a) \<Longrightarrow> x \<in> set (nss ! b) \<Longrightarrow> a = b"
proof (induction nss arbitrary: a b)
  case Nil
  then show ?case by simp
next
  case (Cons ns nss)
  have d: "distinct (concat nss)" "set ns \<inter> set (concat nss) = {}" using Cons.prems(1) by auto
  have notin: "x \<notin> set (nss ! i)" if "x \<in> set ns" "i < length nss" for i
  proof
    assume "x \<in> set (nss ! i)"
    moreover have "nss ! i \<in> set nss" using that(2) by simp
    ultimately have "x \<in> set (concat nss)" by auto
    then show False using d(2) that(1) by auto
  qed
  show ?case
  proof (cases a)
    case a0: 0
    show ?thesis
    proof (cases b)
      case 0
      then show ?thesis using a0 by simp
    next
      case (Suc b')
      then have "x \<in> set ns" "b' < length nss" "x \<in> set (nss ! b')" using Cons.prems a0 by simp_all
      then show ?thesis using notin by blast
    qed
  next
    case aS: (Suc a')
    show ?thesis
    proof (cases b)
      case 0
      then have "x \<in> set ns" "a' < length nss" "x \<in> set (nss ! a')" using Cons.prems aS by simp_all
      then show ?thesis using notin by blast
    next
      case (Suc b')
      then have "a' < length nss" "b' < length nss" "x \<in> set (nss ! a')" "x \<in> set (nss ! b')"
        using Cons.prems aS by simp_all
      then have "a' = b'" using Cons.IH [OF d(1)] by blast
      then show ?thesis using aS Suc by simp
    qed
  qed
qed

lemma fst_label_components:
  "fst (label_components keys mk c comps vc) = c + length comps"
  by (induction comps arbitrary: c vc) simp_all

lemma label_components_other:
  "k \<notin> (!) keys ` set (concat comps) \<Longrightarrow>
     map_of (snd (label_components keys mk c comps vc)) k = map_of vc k"
proof (induction comps arbitrary: c vc)
  case Nil
  then show ?case by simp
next
  case (Cons cm comps)
  have a: "k \<notin> (!) keys ` set (concat comps)" and b: "k \<notin> (!) keys ` set cm"
    using Cons.prems by auto
  show ?case using Cons.IH [OF a] b by (simp add: map_of_assign_component)
qed

lemma label_components_member:
  assumes "distinct (concat nss)"
    and "inj_on (\<lambda>node. keys ! (M ! node)) (set (concat nss))"
    and "a < length nss" and "node \<in> set (nss ! a)"
  shows "map_of (snd (label_components keys mk c (map (map ((!) M)) nss) vc)) (keys ! (M ! node))
           = Some (mk (c + 1 + a))"
  using assms
proof (induction nss arbitrary: c vc a)
  case Nil
  then show ?case by simp
next
  case (Cons ns nss)
  let ?k = "\<lambda>node. keys ! (M ! node)"
  let ?vc = "assign_component keys (mk (c + 1)) (map ((!) M) ns) vc"
  have d: "distinct (concat nss)" using Cons.prems(1) by simp
  have inj: "inj_on ?k (set (concat nss))"
    using Cons.prems(2) by (rule inj_on_subset) auto
  have unf: "label_components keys mk c (map (map ((!) M)) (ns # nss)) vc
      = label_components keys mk (c + 1) (map (map ((!) M)) nss) ?vc" by simp
  show ?case
  proof (cases a)
    case 0
    then have n: "node \<in> set ns" using Cons.prems(4) by simp
    have "?k node \<notin> ?k ` set (concat nss)"
    proof
      assume "?k node \<in> ?k ` set (concat nss)"
      then obtain m where m: "m \<in> set (concat nss)" "?k node = ?k m" by auto
      have "node \<in> set (concat (ns # nss))" "m \<in> set (concat (ns # nss))" using n m(1) by auto
      then have "node = m" using Cons.prems(2) m(2) by (meson inj_onD)
      then show False using Cons.prems(1) n m(1) by auto
    qed
    moreover have "?k ` set (concat nss) = (!) keys ` set (concat (map (map ((!) M)) nss))"
      by (auto simp: image_iff)
    ultimately have "?k node \<notin> (!) keys ` set (concat (map (map ((!) M)) nss))" by simp
    then have "map_of (snd (label_components keys mk (c + 1) (map (map ((!) M)) nss) ?vc)) (?k node)
        = map_of ?vc (?k node)" by (rule label_components_other)
    also have "\<dots> = Some (mk (c + 1))" using n by (simp add: map_of_assign_component)
    finally show ?thesis unfolding unf using 0 by simp
  next
    case (Suc a')
    then have "a' < length nss" "node \<in> set (nss ! a')" using Cons.prems(3,4) by auto
    from Cons.IH [OF d inj this] show ?thesis unfolding unf using Suc by simp
  qed
qed

lemma sym_rtrancl_same:
  assumes "sym R" and "(s, x) \<in> R\<^sup>*"
  shows "((s, y) \<in> R\<^sup>*) = ((x, y) \<in> R\<^sup>*)"
proof
  have xs: "(x, s) \<in> R\<^sup>*" using assms sym_rtrancl [OF assms(1)] by (auto dest: symD)
  show "(s, y) \<in> R\<^sup>* \<Longrightarrow> (x, y) \<in> R\<^sup>*" using xs by (rule rtrancl_trans)
  show "(x, y) \<in> R\<^sup>* \<Longrightarrow> (s, y) \<in> R\<^sup>*" using assms(2) by (rule rtrancl_trans)
qed

lemma found_structure:
  assumes sym: "sym (nbr A)" and range: "nbr A \<subseteq> {..<n} \<times> {..<n}"
    and irrefl: "\<forall>x. (x, x) \<notin> nbr A"
  shows "\<exists>nss. found_components skip A M [0..<n] {} = map (map ((!) M)) nss \<and>
           distinct (concat nss) \<and>
           set (concat nss) = {i. i < n \<and> nbr A `` {i} \<noteq> {}} \<and>
           (\<forall>a x y. a < length nss \<and> x \<in> set (nss ! a) \<longrightarrow>
              (y \<in> set (nss ! a)) = ((x, y) \<in> (nbr A)\<^sup>*))"
proof -
  let ?R = "nbr A"
  have "?R `` {} \<subseteq> {}" by simp
  from found_components_char [OF sym this, of skip M "[0..<n]"] obtain nss where
    eq: "found_components skip A M [0..<n] {} = map (map ((!) M)) nss"
    and ok: "found_ok A [0..<n] {} nss" by blast
  have d: "distinct (concat nss)"
    and comp: "\<forall>ns \<in> set nss. 2 \<le> length ns \<and> (\<exists>s \<in> set [0..<n]. set ns = ?R\<^sup>* `` {s})"
    and cov: "\<forall>s \<in> set [0..<n]. s \<notin> {} \<and> (\<exists>y. y \<noteq> s \<and> (s, y) \<in> ?R) \<longrightarrow> s \<in> set (concat nss)"
    using ok unfolding found_ok_def by blast+
  have conn: "(y \<in> set ns) = ((x, y) \<in> ?R\<^sup>*)" if "ns \<in> set nss" "x \<in> set ns" for ns x y
  proof -
    from comp that(1) obtain s where s: "set ns = ?R\<^sup>* `` {s}" by blast
    then have "(s, x) \<in> ?R\<^sup>*" using that(2) by auto
    from sym_rtrancl_same [OF sym this, of y] show ?thesis using s by auto
  qed
  have sub: "x < n \<and> ?R `` {x} \<noteq> {}" if "x \<in> set (concat nss)" for x
  proof -
    from that obtain ns where ns: "ns \<in> set nss" "x \<in> set ns" by auto
    have dn: "distinct ns" using d ns(1) by (meson distinct_concat_iff)
    have "2 \<le> card (set ns)" using comp ns(1) dn by (simp add: distinct_card)
    then obtain z where z: "z \<in> set ns" "z \<noteq> x"
      by (metis card_le_Suc0_iff_eq List.finite_set not_less_eq_eq numeral_2_eq_2)
    then have "(x, z) \<in> ?R\<^sup>*" using conn [OF ns] by simp
    then obtain w where "(x, w) \<in> ?R" using z(2) by (auto elim: converse_rtranclE)
    then show ?thesis using range by auto
  qed
  have sup: "x \<in> set (concat nss)" if "x < n" "?R `` {x} \<noteq> {}" for x
  proof -
    from that(2) obtain y where y: "(x, y) \<in> ?R" by auto
    then have "y \<noteq> x" using irrefl by auto
    then show ?thesis using cov that(1) y by auto
  qed
  have "set (concat nss) = {i. i < n \<and> ?R `` {i} \<noteq> {}}" using sub sup by blast
  moreover have "\<forall>a x y. a < length nss \<and> x \<in> set (nss ! a) \<longrightarrow>
      (y \<in> set (nss ! a)) = ((x, y) \<in> ?R\<^sup>*)"
    using conn by (metis nth_mem)
  ultimately show ?thesis using eq d by blast
qed

lemma label_found_components:
  assumes sym: "sym (nbr A)" and range: "nbr A \<subseteq> {..<n} \<times> {..<n}"
    and irrefl: "\<forall>x. (x, x) \<notin> nbr A"
    and inj: "inj_on (\<lambda>node. keys ! (M ! node)) {..<n}" and injmk: "inj mk"
  shows "labelled_ok (nbr A) n (\<lambda>node. keys ! (M ! node)) mk c (map_of vc)
           (fst (label_components keys mk c (found_components skip A M [0..<n] {}) vc))
           (map_of (snd (label_components keys mk c (found_components skip A M [0..<n] {}) vc)))"
proof -
  let ?R = "nbr A" and ?k = "\<lambda>node. keys ! (M ! node)"
  from found_structure [OF sym range irrefl, of skip M] obtain nss where
    eq: "found_components skip A M [0..<n] {} = map (map ((!) M)) nss"
    and d: "distinct (concat nss)"
    and nodes: "set (concat nss) = {i. i < n \<and> ?R `` {i} \<noteq> {}}"
    and conn: "\<forall>a x y. a < length nss \<and> x \<in> set (nss ! a) \<longrightarrow>
              (y \<in> set (nss ! a)) = ((x, y) \<in> ?R\<^sup>*)" by blast
  let ?res = "label_components keys mk c (map (map ((!) M)) nss) vc"
  have "set (concat nss) \<subseteq> {..<n}" unfolding nodes by auto
  with inj have inj': "inj_on ?k (set (concat nss))" by (rule inj_on_subset)
  have keys_eq: "(!) keys ` set (concat (map (map ((!) M)) nss)) = ?k ` set (concat nss)"
    by (auto simp: image_iff)
  have other: "map_of (snd ?res) k = map_of vc k" if "k \<notin> ?k ` set (concat nss)" for k
    using that keys_eq label_components_other [of k keys "map (map ((!) M)) nss" mk c vc] by simp
  have fst: "fst ?res = c + length nss" by (simp add: fst_label_components)
  have idx: "\<exists>a. a < length nss \<and> i \<in> set (nss ! a)" if "i < n" "?R `` {i} \<noteq> {}" for i
  proof -
    have "i \<in> set (concat nss)" using that nodes by simp
    then obtain ns where "ns \<in> set nss" "i \<in> set ns" by auto
    then show ?thesis by (metis in_set_conv_nth)
  qed
  have member: "map_of (snd ?res) (?k i) = Some (mk (c + 1 + a))"
    if "a < length nss" "i \<in> set (nss ! a)" for a i
    using label_components_member [OF d inj' that] .
  have A: "map_of (snd ?res) (?k i) = map_of vc (?k i)" if "i < n" "?R `` {i} = {}" for i
  proof -
    have "?k i \<notin> ?k ` set (concat nss)"
    proof
      assume "?k i \<in> ?k ` set (concat nss)"
      then obtain m where m: "m \<in> set (concat nss)" "?k i = ?k m" by auto
      then have "m < n" using nodes by auto
      then have "i = m" using inj m(2) that(1) by (auto dest: inj_onD)
      then show False using m(1) nodes that(2) by auto
    qed
    then show ?thesis by (rule other)
  qed
  have B: "\<exists>k. c < k \<and> k \<le> fst ?res \<and> map_of (snd ?res) (?k i) = Some (mk k)"
    if "i < n" "?R `` {i} \<noteq> {}" for i
  proof -
    from idx [OF that] obtain a where a: "a < length nss" "i \<in> set (nss ! a)" by blast
    have "c < c + 1 + a \<and> c + 1 + a \<le> fst ?res" using a(1) fst by simp
    then show ?thesis using member [OF a] by blast
  qed
  have C: "(map_of (snd ?res) (?k i) = map_of (snd ?res) (?k j)) = ((i, j) \<in> ?R\<^sup>*)"
    if "i < n" "j < n" "?R `` {i} \<noteq> {}" "?R `` {j} \<noteq> {}" for i j
  proof -
    from idx [OF that(1,3)] obtain a where a: "a < length nss" "i \<in> set (nss ! a)" by blast
    from idx [OF that(2,4)] obtain b where b: "b < length nss" "j \<in> set (nss ! b)" by blast
    have "(map_of (snd ?res) (?k i) = map_of (snd ?res) (?k j)) = (a = b)"
      using member [OF a] member [OF b] injmk by (auto dest: injD)
    also have "\<dots> = (j \<in> set (nss ! a))"
      using distinct_concat_index [OF d a(1) b(1) _ b(2)] b(2) by auto
    also have "\<dots> = ((i, j) \<in> ?R\<^sup>*)" using conn a by blast
    finally show ?thesis .
  qed
  have D: "map_of (snd ?res) k = map_of vc k" if "k \<notin> ?k ` {..<n}" for k
  proof -
    have "k \<notin> ?k ` set (concat nss)" using that nodes by auto
    then show ?thesis by (rule other)
  qed
  show ?thesis unfolding eq labelled_ok_def using A B C D by blast
qed

lemma set_pair_indices: "set (pair_indices n) = {(i, j). i < j \<and> j < n}"
proof -
  have "(a, b) \<in> set (pair_indices n)" if "a < b" "b < n" for a b
  proof -
    have "a \<in> set [0..<n]" "(a, b) \<in> set (map (\<lambda>j. (a, j)) [a + 1..<n])" using that by auto
    then show ?thesis unfolding pair_indices_def set_concat by (intro UN_I [of "map (\<lambda>j. (a, j)) [a + 1..<n]"]) auto
  qed
  moreover have "a < b \<and> b < n" if "(a, b) \<in> set (pair_indices n)" for a b
    using that by (auto simp: pair_indices_def)
  ultimately show ?thesis by auto
qed

lemma zip_scores:
  "zip ps (predict ce (text_pairs mt ps)) = map (\<lambda>(i, j). ((i, j), ce (mt ! i) (mt ! j))) ps"
  by (induction ps) (auto simp: predict_def text_pairs_def)

lemma nbr_scored:
  "nbr (build_adjacency t (zip ps (predict ce (text_pairs mt ps))) []) =
     {(x, y). ((x, y) \<in> set ps \<and> t \<le> ce (mt ! x) (mt ! y)) \<or> ((y, x) \<in> set ps \<and> t \<le> ce (mt ! y) (mt ! x))}"
  unfolding nbr_build_adjacency zip_scores nbr_empty by (auto simp: image_iff) force+

lemma nbr_stage1:
  "nbr (build_adjacency t (zip (pair_indices (length mt))
          (predict ce (text_pairs mt (pair_indices (length mt))))) []) = verification_edges ce t mt"
  unfolding nbr_scored set_pair_indices verification_edges_def pair_score_def
  by (auto simp: min_def max_def)

lemma verification_edges_sym: "sym (verification_edges ce t mt)"
  by (auto simp: verification_edges_def pair_score_def sym_def min.commute max.commute)

lemma verification_edges_range: "verification_edges ce t mt \<subseteq> {..<length mt} \<times> {..<length mt}"
  by (auto simp: verification_edges_def)

lemma verification_edges_irrefl: "\<forall>x. (x, x) \<notin> verification_edges ce t mt"
  by (auto simp: verification_edges_def)

lemma digit_inj: "a < 10 \<Longrightarrow> b < 10 \<Longrightarrow> digit a = digit b \<Longrightarrow> a = b"
  by (auto simp: digit_def numeral_eq_Suc less_Suc_eq)

lemma length_str_nat: "length (str_nat n) = (if n < 10 then 1 else length (str_nat (n div 10)) + 1)"
  by (subst str_nat.simps) simp

lemma str_nat_nonempty: "str_nat n \<noteq> []"
  by (subst str_nat.simps) simp

lemma str_nat_inj: "str_nat a = str_nat b \<Longrightarrow> a = b"
proof (induction a arbitrary: b rule: str_nat.induct)
  case (1 a)
  show ?case
  proof (cases "a < 10")
    case a: True
    show ?thesis
    proof (cases "b < 10")
      case True
      then show ?thesis using a "1.prems" digit_inj by (simp add: str_nat.simps [of a] str_nat.simps [of b])
    next
      case False
      then have "length (str_nat b) \<ge> 2"
        using str_nat_nonempty [of "b div 10"] by (simp add: length_str_nat [of b] Suc_le_eq)
      moreover have "length (str_nat a) = 1" using a by (simp add: length_str_nat)
      ultimately show ?thesis using "1.prems" by simp
    qed
  next
    case a: False
    show ?thesis
    proof (cases "b < 10")
      case True
      have "length (str_nat a) \<ge> 2"
        using a str_nat_nonempty [of "a div 10"] by (simp add: length_str_nat [of a] Suc_le_eq)
      moreover have "length (str_nat b) = 1" using True by (simp add: length_str_nat)
      ultimately show ?thesis using "1.prems" by simp
    next
      case False
      have "str_nat (a div 10) @ [digit (a mod 10)] = str_nat (b div 10) @ [digit (b mod 10)]"
        using "1.prems" a False by (simp add: str_nat.simps [of a] str_nat.simps [of b])
      then have e: "str_nat (a div 10) = str_nat (b div 10)" "digit (a mod 10) = digit (b mod 10)"
        by simp_all
      have "a div 10 = b div 10" using "1.IH" [OF a e(1)] .
      moreover have "a mod 10 = b mod 10" using e(2) by (intro digit_inj) simp_all
      ultimately show ?thesis by (metis div_mult_mod_eq)
    qed
  qed
qed

lemma inj_sim_group: "inj sim_group"
  by (auto simp: inj_def sim_group_def dest: str_nat_inj)

lemma pair_indices_nonempty: "2 \<le> n \<Longrightarrow> pair_indices n \<noteq> []"
proof -
  assume "2 \<le> n"
  then have "(0, 1) \<in> set (pair_indices n)" unfolding set_pair_indices by simp
  then show ?thesis by auto
qed

lemma verify_cluster_eq:
  assumes "2 \<le> length members" and "\<forall>i \<in> set members. i < length valid_texts"
  shows "verify_cluster ce threshold valid_texts original_indices members (cluster_id, verified) =
     Inr (snd (components_loop
       (build_adjacency threshold
          (zip (pair_indices (length members))
             (predict ce (text_pairs (map ((!) valid_texts) members) (pair_indices (length members))))) [])
       members original_indices [0..<length members] ({}, cluster_id, verified)))"
proof -
  have ne: "text_pairs (map ((!) valid_texts) members) (pair_indices (length members)) \<noteq> []"
    using pair_indices_nonempty [OF assms(1)] by (simp add: text_pairs_def)
  have nr: "\<not> (\<exists>i \<in> set members. length valid_texts \<le> i)" using assms(2) by auto
  show ?thesis
    unfolding verify_cluster_def Let_def using assms(1) ne nr
    by (simp add: split_beta)
qed

lemma verify_cluster_labelled:
  fixes ce :: cross_encoder
  assumes "2 \<le> length members"
    and "\<forall>i \<in> set members. i < length valid_texts"
    and "inj_on (\<lambda>node. original_indices ! (members ! node)) {..<length members}"
  shows "\<exists>cluster_id' verified'.
      verify_cluster ce threshold valid_texts original_indices members (cluster_id, verified)
        = Inr (cluster_id', verified') \<and>
      labelled_ok (verification_edges ce threshold (map ((!) valid_texts) members)) (length members)
        (\<lambda>node. original_indices ! (members ! node)) sim_group cluster_id (map_of verified)
        cluster_id' (map_of verified')"
proof -
  let ?mt = "map ((!) valid_texts) members"
  let ?A = "build_adjacency threshold
          (zip (pair_indices (length members))
             (predict ce (text_pairs ?mt (pair_indices (length members))))) []"
  let ?E = "verification_edges ce threshold ?mt"
  have nb: "nbr ?A = ?E" using nbr_stage1 [of threshold ?mt ce] by simp
  let ?res = "label_components original_indices sim_group cluster_id
      (found_components True ?A members [0..<length members] {}) verified"
  have eq: "verify_cluster ce threshold valid_texts original_indices members (cluster_id, verified)
      = Inr (fst ?res, snd ?res)"
    unfolding verify_cluster_eq [OF assms(1,2)] components_loop_fission by simp
  have "labelled_ok (nbr ?A) (length members) (\<lambda>node. original_indices ! (members ! node))
      sim_group cluster_id (map_of verified) (fst ?res) (map_of (snd ?res))"
  proof (rule label_found_components)
    show "sym (nbr ?A)" unfolding nb by (rule verification_edges_sym)
    show "nbr ?A \<subseteq> {..<length members} \<times> {..<length members}"
      unfolding nb using verification_edges_range [of ce threshold ?mt] by simp
    show "\<forall>x. (x, x) \<notin> nbr ?A" unfolding nb by (rule verification_edges_irrefl)
    show "inj_on (\<lambda>node. original_indices ! (members ! node)) {..<length members}" by (rule assms(3))
    show "inj sim_group" by (rule inj_sim_group)
  qed
  then show ?thesis unfolding eq nb by blast
qed

lemma verification_edges_mono: "t1 \<le> t2 \<Longrightarrow> verification_edges ce t2 mt \<subseteq> verification_edges ce t1 mt"
  by (auto simp: verification_edges_def)

lemma labelled_ok_mono:
  assumes ok1: "labelled_ok R1 n key mk c (\<lambda>k. None) c1 after1"
    and ok2: "labelled_ok R2 n key mk c (\<lambda>k. None) c2 after2"
    and sub: "R2 \<subseteq> R1" and i: "i < n" and j: "j < n"
    and lab: "after2 (key i) \<noteq> None" and same: "after2 (key i) = after2 (key j)"
  shows "after1 (key i) \<noteq> None \<and> after1 (key i) = after1 (key j)"
proof -
  have iso2: "R2 `` {x} \<noteq> {}" if "x < n" "after2 (key x) \<noteq> None" for x
    using ok2 that unfolding labelled_ok_def by force
  have ni: "R2 `` {i} \<noteq> {}" using iso2 [OF i lab] .
  have nj: "R2 `` {j} \<noteq> {}" using iso2 [OF j] lab same by simp
  have "(i, j) \<in> R2\<^sup>*" using ok2 i j ni nj same unfolding labelled_ok_def by blast
  then have conn: "(i, j) \<in> R1\<^sup>*" using rtrancl_mono [OF sub] by blast
  have ni1: "R1 `` {i} \<noteq> {}" and nj1: "R1 `` {j} \<noteq> {}" using ni nj sub by blast+
  have "after1 (key i) \<noteq> None" using ok1 i ni1 unfolding labelled_ok_def by force
  moreover have "after1 (key i) = after1 (key j)"
    using ok1 i j ni1 nj1 conn unfolding labelled_ok_def by blast
  ultimately show ?thesis by simp
qed

lemma set_pair_indices_bounded:
  "set (pair_indices_bounded n) = {(i, j). i < j \<and> j < n \<and> j \<le> i + 50}"
proof -
  have "(a, b) \<in> set (pair_indices_bounded n)" if "a < b" "b < n" "b \<le> a + 50" for a b
  proof -
    have "a \<in> set [0..<n]" "(a, b) \<in> set (map (\<lambda>j. (a, j)) [a + 1..<min n (a + 51)])"
      using that by auto
    then show ?thesis unfolding pair_indices_bounded_def set_concat
      by (intro UN_I [of "map (\<lambda>j. (a, j)) [a + 1..<min n (a + 51)]"]) auto
  qed
  moreover have "a < b \<and> b < n \<and> b \<le> a + 50" if "(a, b) \<in> set (pair_indices_bounded n)" for a b
    using that by (auto simp: pair_indices_bounded_def)
  ultimately show ?thesis by auto
qed

lemma nbr_stage2:
  "nbr (build_adjacency t (zip (pair_indices_bounded (length mt))
          (predict ce (text_pairs mt (pair_indices_bounded (length mt))))) []) = bounded_edges ce t mt"
  unfolding nbr_scored set_pair_indices_bounded bounded_edges_def pair_score_def
  by (auto simp: min_def max_def)

lemma bounded_edges_sym: "sym (bounded_edges ce t mt)"
  by (auto simp: bounded_edges_def pair_score_def sym_def min.commute max.commute)

lemma bounded_edges_range: "bounded_edges ce t mt \<subseteq> {..<length mt} \<times> {..<length mt}"
  by (auto simp: bounded_edges_def)

lemma bounded_edges_irrefl: "\<forall>x. (x, x) \<notin> bounded_edges ce t mt"
  by (auto simp: bounded_edges_def)

lemma pair_indices_bounded_nonempty: "2 \<le> n \<Longrightarrow> pair_indices_bounded n \<noteq> []"
proof -
  assume "2 \<le> n"
  then have "(0, 1) \<in> set (pair_indices_bounded n)" unfolding set_pair_indices_bounded by simp
  then show ?thesis by auto
qed

lemma verify_sub_cluster_eq:
  assumes "2 \<le> length members" and "\<forall>i \<in> set members. i < length texts"
  shows "verify_sub_cluster ce threshold texts indices members (counter, verified) =
     Inr (snd (sub_components_loop
       (build_adjacency threshold
          (zip (pair_indices_bounded (length members))
             (predict ce (text_pairs (map ((!) texts) members) (pair_indices_bounded (length members))))) [])
       members indices [0..<length members] ({}, counter, verified)))"
proof -
  have ne: "text_pairs (map ((!) texts) members) (pair_indices_bounded (length members)) \<noteq> []"
    using pair_indices_bounded_nonempty [OF assms(1)] by (simp add: text_pairs_def)
  have nr: "\<not> (\<exists>i \<in> set members. length texts \<le> i)" using assms(2) by auto
  show ?thesis
    unfolding verify_sub_cluster_def Let_def using assms(1) ne nr
    by (simp add: split_beta)
qed

lemma verify_sub_cluster_labelled:
  fixes ce :: cross_encoder
  assumes "2 \<le> length members"
    and "\<forall>i \<in> set members. i < length texts"
    and "inj_on (\<lambda>node. indices ! (members ! node)) {..<length members}"
  shows "\<exists>counter' verified'.
      verify_sub_cluster ce threshold texts indices members (counter, verified)
        = Inr (counter', verified') \<and>
      labelled_ok (bounded_edges ce threshold (map ((!) texts) members)) (length members)
        (\<lambda>node. indices ! (members ! node)) (\<lambda>k. k) counter (map_of verified)
        counter' (map_of verified')"
proof -
  let ?mt = "map ((!) texts) members"
  let ?A = "build_adjacency threshold
          (zip (pair_indices_bounded (length members))
             (predict ce (text_pairs ?mt (pair_indices_bounded (length members))))) []"
  let ?E = "bounded_edges ce threshold ?mt"
  have nb: "nbr ?A = ?E" using nbr_stage2 [of threshold ?mt ce] by simp
  let ?res = "label_components indices (\<lambda>k. k) counter
      (found_components False ?A members [0..<length members] {}) verified"
  have eq: "verify_sub_cluster ce threshold texts indices members (counter, verified)
      = Inr (fst ?res, snd ?res)"
    unfolding verify_sub_cluster_eq [OF assms(1,2)] sub_components_loop_fission by simp
  have "labelled_ok (nbr ?A) (length members) (\<lambda>node. indices ! (members ! node))
      (\<lambda>k. k) counter (map_of verified) (fst ?res) (map_of (snd ?res))"
  proof (rule label_found_components)
    show "sym (nbr ?A)" unfolding nb by (rule bounded_edges_sym)
    show "nbr ?A \<subseteq> {..<length members} \<times> {..<length members}"
      unfolding nb using bounded_edges_range [of ce threshold ?mt] by simp
    show "\<forall>x. (x, x) \<notin> nbr ?A" unfolding nb by (rule bounded_edges_irrefl)
    show "inj_on (\<lambda>node. indices ! (members ! node)) {..<length members}" by (rule assms(3))
    show "inj (\<lambda>k::nat. k)" by simp
  qed
  then show ?thesis unfolding eq nb by blast
qed

lemma predict_cong:
  "\<forall>(i, j) \<in> set ps. ce' (mt ! i) (mt ! j) = ce (mt ! i) (mt ! j) \<Longrightarrow>
     predict ce' (text_pairs mt ps) = predict ce (text_pairs mt ps)"
  by (auto simp: predict_def text_pairs_def)

lemma verify_sub_cluster_cong:
  assumes "\<forall>i j. i < j \<and> j < length members \<and> j \<le> i + 50 \<longrightarrow>
      ce' (texts ! (members ! i)) (texts ! (members ! j)) = ce (texts ! (members ! i)) (texts ! (members ! j))"
  shows "verify_sub_cluster ce' threshold texts indices members state =
         verify_sub_cluster ce threshold texts indices members state"
proof -
  have "\<forall>(i, j) \<in> set (pair_indices_bounded (length members)).
      ce' (map ((!) texts) members ! i) (map ((!) texts) members ! j)
        = ce (map ((!) texts) members ! i) (map ((!) texts) members ! j)"
    unfolding set_pair_indices_bounded using assms by auto
  from predict_cong [OF this] show ?thesis unfolding verify_sub_cluster_def Let_def by simp
qed

subsection \<open>Stage 1 as a whole\<close>

lemma strip_nonempty_nonempty: "strip_nonempty t \<Longrightarrow> t \<noteq> []"
  by (auto simp: strip_nonempty_def)

lemma length_filter_mono: "(\<And>x. x \<in> set xs \<Longrightarrow> P x \<Longrightarrow> Q x) \<Longrightarrow> length (filter P xs) \<le> length (filter Q xs)"
  by (induction xs) auto

lemma valid_data_length:
  "length (filter (\<lambda>(i, idx, text). P text)
      (List.enumerate n (zip (map fst qwi) (map (\<lambda>(idx, q). g q) qwi))))
   = length (filter (\<lambda>(idx, q). P (g q)) qwi)"
  by (induction qwi arbitrary: n) (auto simp: split_beta)

lemma filter_enumerate_length:
  "length (filter (\<lambda>(idx, q). P q) (List.enumerate n qs)) = length (filter P qs)"
  by (induction qs arbitrary: n) auto

lemma filter_filter_enumerate:
  "filter (\<lambda>(idx, q). Q q) (filter (\<lambda>(idx, q). P q) (List.enumerate n qs))
     = filter (\<lambda>(idx, q). P q \<and> Q q) (List.enumerate n qs)"
  by (induction qs arbitrary: n) auto

lemma valid_data_length_le:
  "length (valid_data qwi) \<le> length (filter (\<lambda>(idx, q). get_question_text q \<noteq> []) qwi)"
proof -
  have "length (valid_data qwi) = length (filter (\<lambda>(idx, q). strip_nonempty (get_question_text q)) qwi)"
    unfolding valid_data_def Let_def by (rule valid_data_length)
  also have "\<dots> \<le> length (filter (\<lambda>(idx, q). get_question_text q \<noteq> []) qwi)"
    by (rule length_filter_mono) (auto dest: strip_nonempty_nonempty)
  finally show ?thesis .
qed

lemma find_similarity_groups_few:
  assumes "length (filter (\<lambda>(idx, q). get_question_text q \<noteq> []) qwi) < 2"
  shows "find_similarity_groups hdbscan qwi bi_encoder cross_encoder mcs t use = Inr []"
proof -
  have "length (valid_data qwi) < 2" using valid_data_length_le [of qwi] assms by simp
  then show ?thesis unfolding find_similarity_groups_def by simp
qed

lemma apply_assignments_empty:
  "apply_assignments [] questions = map (\<lambda>q. q\<lparr>similarity_group_id := Null\<rparr>) questions"
proof -
  have "map (\<lambda>(idx, q). f q) (List.enumerate n qs) = map f qs" for f :: "question \<Rightarrow> question" and n qs
    by (induction qs arbitrary: n) auto
  then show ?thesis unfolding apply_assignments_def by simp
qed

lemma cluster_add_distinct:
  assumes "distinct (concat (map snd cl))" and "i \<notin> set (concat (map snd cl))"
  shows "distinct (concat (map snd (AList.update l (cluster_get cl l @ [i]) cl))) \<and>
         set (concat (map snd (AList.update l (cluster_get cl l @ [i]) cl)))
           = insert i (set (concat (map snd cl)))"
  using assms
proof (induction cl)
  case Nil
  then show ?case by (simp add: cluster_get_def)
next
  case (Cons p cl)
  obtain l' M where p: "p = (l', M)" by (cases p)
  show ?case
  proof (cases "l' = l")
    case True
    then have g: "cluster_get (p # cl) l = M" by (simp add: cluster_get_def p)
    show ?thesis unfolding g using Cons.prems True by (auto simp: p)
  next
    case False
    then have g: "cluster_get (p # cl) l = cluster_get cl l" by (simp add: cluster_get_def p)
    have d: "distinct (concat (map snd cl))" and n: "i \<notin> set (concat (map snd cl))"
      using Cons.prems by (auto simp: p)
    from Cons.IH [OF d n] show ?thesis unfolding g using Cons.prems False by (auto simp: p)
  qed
qed

lemma group_by_cluster_inv:
  assumes "distinct (concat (map snd cl))" and "distinct (map fst es)"
    and "set (concat (map snd cl)) \<inter> fst ` set es = {}"
  shows "distinct (concat (map snd (group_by_cluster es cl))) \<and>
         set (concat (map snd (group_by_cluster es cl))) \<subseteq> set (concat (map snd cl)) \<union> fst ` set es"
  using assms
proof (induction es arbitrary: cl)
  case Nil
  then show ?case by simp
next
  case (Cons e es)
  obtain i l where e: "e = (i, l)" by (cases e)
  have des: "distinct (map fst es)" and ies: "i \<notin> fst ` set es" using Cons.prems(2) by (auto simp: e)
  have icl: "i \<notin> set (concat (map snd cl))" using Cons.prems(3) by (auto simp: e)
  show ?case
  proof (cases "l \<ge> 0")
    case True
    let ?cl = "AList.update l (cluster_get cl l @ [i]) cl"
    from cluster_add_distinct [OF Cons.prems(1) icl, of l] have
      d: "distinct (concat (map snd ?cl))" and s: "set (concat (map snd ?cl)) = insert i (set (concat (map snd cl)))"
      by blast+
    have disj: "set (concat (map snd ?cl)) \<inter> fst ` set es = {}"
      unfolding s using Cons.prems(3) ies by (auto simp: e)
    from Cons.IH [OF d des disj] show ?thesis unfolding s using True by (auto simp: e)
  next
    case False
    have disj: "set (concat (map snd cl)) \<inter> fst ` set es = {}" using Cons.prems(3) by (auto simp: e)
    from Cons.IH [OF Cons.prems(1) des disj] show ?thesis using False by (auto simp: e)
  qed
qed

lemma clusters_of_labels:
  "distinct (concat (map snd (group_by_cluster (List.enumerate 0 labels) []))) \<and>
   (\<forall>i \<in> set (concat (map snd (group_by_cluster (List.enumerate 0 labels) []))). i < length labels)"
proof -
  have "distinct (map fst (List.enumerate 0 labels))" by simp
  from group_by_cluster_inv [of "[]", OF _ this] have
    d: "distinct (concat (map snd (group_by_cluster (List.enumerate 0 labels) [])))"
    and s: "set (concat (map snd (group_by_cluster (List.enumerate 0 labels) [])))
        \<subseteq> fst ` set (List.enumerate 0 labels)" by simp_all
  have "fst ` set (List.enumerate 0 labels) = {0..<length labels}"
    using map_fst_enumerate [of 0 labels] by (metis add_0 set_map set_upt)
  then show ?thesis using d s by auto
qed


lemma labelled_ok_shared:
  assumes ok: "labelled_ok R n key mk c before c' after"
    and sym: "sym R" and range: "R \<subseteq> {..<n} \<times> {..<n}" and irrefl: "\<forall>x. (x, x) \<notin> R"
    and inj: "inj_on key {..<n}" and sh: "shared_labels before"
    and fresh: "\<forall>i < n. before (key i) = None"
  shows "shared_labels after \<and> dom after \<subseteq> dom before \<union> key ` {..<n}"
proof -
  have iso: "after (key i) = before (key i)" if "i < n" "R `` {i} = {}" for i
    using ok that unfolding labelled_ok_def by blast
  have same: "after (key i) = after (key j)"
    if "i < n" "j < n" "R `` {i} \<noteq> {}" "R `` {j} \<noteq> {}" "(i, j) \<in> R\<^sup>*" for i j
    using ok that unfolding labelled_ok_def by blast
  have other: "after k = before k" if "k \<notin> key ` {..<n}" for k
    using ok that unfolding labelled_ok_def by blast
  have old: "after k = Some l" if "before k = Some l" for k l
  proof -
    have "k \<notin> key ` {..<n}" using that fresh by auto
    then show ?thesis using other that by simp
  qed
  have new: "\<exists>i < n. k = key i \<and> R `` {i} \<noteq> {}" if "before k = None" "after k = Some l" for k l
  proof -
    have "k \<in> key ` {..<n}" using other that by force
    then obtain i where i: "i < n" "k = key i" by auto
    have "R `` {i} \<noteq> {}" using iso [OF i(1)] that i(2) by auto
    then show ?thesis using i by blast
  qed
  have "\<exists>k'. k' \<noteq> k \<and> after k' = Some l" if a: "after k = Some l" for k l
  proof (cases "before k")
    case (Some l')
    then have "after k = Some l'" by (rule old)
    then have "before k = Some l" using a Some by simp
    then obtain k' where "k' \<noteq> k" "before k' = Some l" using sh unfolding shared_labels_def by blast
    then show ?thesis using old by blast
  next
    case None
    from new [OF None a] obtain i where i: "i < n" "k = key i" "R `` {i} \<noteq> {}" by blast
    then obtain j where j: "(i, j) \<in> R" by auto
    then have jn: "j < n" using range by auto
    have ij: "i \<noteq> j" using j irrefl by auto
    have "(j, i) \<in> R" using j sym by (auto dest: symD)
    then have nj: "R `` {j} \<noteq> {}" by auto
    have "after (key i) = after (key j)" using same [OF i(1) jn i(3) nj] j by auto
    moreover have "key j \<noteq> key i" using inj i(1) jn ij by (auto dest: inj_onD)
    ultimately show ?thesis using a i(2) by auto
  qed
  then have "shared_labels after" unfolding shared_labels_def by blast
  moreover have "dom after \<subseteq> dom before \<union> key ` {..<n}" using other by (auto simp: dom_def)
  ultimately show ?thesis by simp
qed

lemma key_inj:
  assumes "distinct M" and "inj_on ((!) OI) (set M)"
  shows "inj_on (\<lambda>node. OI ! (M ! node)) {..<length M}"
proof (rule inj_onI)
  fix x y assume x: "x \<in> {..<length M}" and y: "y \<in> {..<length M}" and e: "OI ! (M ! x) = OI ! (M ! y)"
  have "M ! x = M ! y" using assms(2) e x y by (auto dest: inj_onD)
  then show "x = y" using assms(1) x y by (simp add: nth_eq_iff_index_eq)
qed

lemma key_image: "(\<lambda>node. OI ! (M ! node)) ` {..<length M} = (!) OI ` set M"
proof -
  have "set M = (!) M ` {..<length M}" by (auto simp: set_conv_nth)
  then show ?thesis by (auto simp: image_iff)
qed

lemma verify_cluster_shared:
  fixes ce :: cross_encoder
  assumes d: "distinct M" and r: "\<forall>i \<in> set M. i < length vt"
    and inj: "inj_on ((!) OI) (set M)" and sh: "shared_labels (map_of vc)"
    and fresh: "dom (map_of vc) \<inter> (!) OI ` set M = {}"
  shows "\<exists>c' v'. verify_cluster ce t vt OI M (c, vc) = Inr (c', v') \<and> shared_labels (map_of v') \<and>
           dom (map_of v') \<subseteq> dom (map_of vc) \<union> (!) OI ` set M"
proof (cases "length M < 2")
  case True
  then have "verify_cluster ce t vt OI M (c, vc) = Inr (c, vc)" by (simp add: verify_cluster_def)
  then show ?thesis using sh by auto
next
  case False
  then have two: "2 \<le> length M" by simp
  let ?key = "\<lambda>node. OI ! (M ! node)"
  let ?E = "verification_edges ce t (map ((!) vt) M)"
  have kinj: "inj_on ?key {..<length M}" using d inj by (rule key_inj)
  from verify_cluster_labelled [OF two r kinj, of ce t c vc] obtain c' v' where
    run: "verify_cluster ce t vt OI M (c, vc) = Inr (c', v')"
    and ok: "labelled_ok ?E (length M) ?key sim_group c (map_of vc) c' (map_of v')" by blast
  have fr: "\<forall>i < length M. map_of vc (?key i) = None"
  proof (intro allI impI)
    fix i assume "i < length M"
    then have "?key i \<in> (!) OI ` set M" by auto
    then show "map_of vc (?key i) = None" using fresh by (auto simp: dom_def)
  qed
  have rng: "?E \<subseteq> {..<length M} \<times> {..<length M}"
    using verification_edges_range [of ce t "map ((!) vt) M"] by simp
  from labelled_ok_shared [OF ok verification_edges_sym rng verification_edges_irrefl kinj sh fr]
  show ?thesis using run unfolding key_image by blast
qed

lemma verify_clusters_shared:
  fixes ce :: cross_encoder
  assumes "distinct (concat (map snd cs))" and "\<forall>i \<in> set (concat (map snd cs)). i < length vt"
    and "inj_on ((!) OI) (set (concat (map snd cs)))" and "shared_labels (map_of vc)"
    and "dom (map_of vc) \<inter> (!) OI ` set (concat (map snd cs)) = {}"
  shows "\<exists>c' v'. verify_clusters ce t vt OI cs (c, vc) = Inr (c', v') \<and> shared_labels (map_of v') \<and>
           dom (map_of v') \<subseteq> dom (map_of vc) \<union> (!) OI ` set (concat (map snd cs))"
  using assms
proof (induction cs arbitrary: c vc)
  case Nil
  then show ?case by simp
next
  case (Cons p cs)
  obtain l M where p: "p = (l, M)" by (cases p)
  let ?rest = "set (concat (map snd cs))"
  have dM: "distinct M" and dcs: "distinct (concat (map snd cs))" and disj: "set M \<inter> ?rest = {}"
    using Cons.prems(1) by (auto simp: p)
  have rM: "\<forall>i \<in> set M. i < length vt" and rcs: "\<forall>i \<in> ?rest. i < length vt"
    using Cons.prems(2) by (auto simp: p)
  have injall: "inj_on ((!) OI) (set M \<union> ?rest)" using Cons.prems(3) by (simp add: p)
  have injM: "inj_on ((!) OI) (set M)" and injcs: "inj_on ((!) OI) ?rest"
    using injall by (auto intro: inj_on_subset)
  have frM: "dom (map_of vc) \<inter> (!) OI ` set M = {}" and frcs: "dom (map_of vc) \<inter> (!) OI ` ?rest = {}"
    using Cons.prems(5) by (auto simp: p)
  from verify_cluster_shared [OF dM rM injM Cons.prems(4) frM, of ce t c] obtain c1 v1 where
    run1: "verify_cluster ce t vt OI M (c, vc) = Inr (c1, v1)" and sh1: "shared_labels (map_of v1)"
    and dom1: "dom (map_of v1) \<subseteq> dom (map_of vc) \<union> (!) OI ` set M" by blast
  have imgdisj: "(!) OI ` set M \<inter> (!) OI ` ?rest = {}"
    using injall disj by (auto dest!: inj_onD) 
  have fr1: "dom (map_of v1) \<inter> (!) OI ` ?rest = {}" using dom1 frcs imgdisj by blast
  from Cons.IH [OF dcs rcs injcs sh1 fr1, of c1] obtain c' v' where
    run: "verify_clusters ce t vt OI cs (c1, v1) = Inr (c', v')" and sh': "shared_labels (map_of v')"
    and dom': "dom (map_of v') \<subseteq> dom (map_of v1) \<union> (!) OI ` ?rest" by blast
  have "verify_clusters ce t vt OI (p # cs) (c, vc) = Inr (c', v')" using run1 run by (simp add: p)
  moreover have "dom (map_of v') \<subseteq> dom (map_of vc) \<union> (!) OI ` set (concat (map snd (p # cs)))"
    using dom' dom1 by (auto simp: p)
  ultimately show ?case using sh' by blast
qed

lemma accept_cluster_shared:
  assumes d: "distinct M" and r: "\<forall>i \<in> set M. i < length OI"
    and inj: "inj_on ((!) OI) (set M)" and sh: "shared_labels (map_of vc)"
    and fresh: "dom (map_of vc) \<inter> (!) OI ` set M = {}"
  shows "\<exists>c' v'. accept_cluster OI M (c, vc) = Inr (c', v') \<and> shared_labels (map_of v') \<and>
           dom (map_of v') \<subseteq> dom (map_of vc) \<union> (!) OI ` set M"
proof (cases "2 \<le> length M")
  case False
  then have "accept_cluster OI M (c, vc) = Inr (c, vc)" by (simp add: accept_cluster_def)
  then show ?thesis using sh by auto
next
  case True
  let ?v = "assign_component OI (sim_group (c + 1)) M vc"
  have nr: "\<not> (\<exists>i \<in> set M. length OI \<le> i)" using r by auto
  have run: "accept_cluster OI M (c, vc) = Inr (c + 1, ?v)"
    using True nr by (simp add: accept_cluster_def)
  have m: "map_of ?v k = (if k \<in> (!) OI ` set M then Some (sim_group (c + 1)) else map_of vc k)" for k
    by (rule map_of_assign_component)
  have "\<exists>k'. k' \<noteq> k \<and> map_of ?v k' = Some l" if a: "map_of ?v k = Some l" for k l
  proof (cases "k \<in> (!) OI ` set M")
    case True
    then have l: "l = sim_group (c + 1)" using a m by simp
    have "card ((!) OI ` set M) = length M" using inj d by (simp add: card_image distinct_card)
    then have "2 \<le> card ((!) OI ` set M)" using \<open>2 \<le> length M\<close> by simp
    then obtain k' where "k' \<in> (!) OI ` set M" "k' \<noteq> k"
      by (metis True card_le_Suc0_iff_eq finite_imageI List.finite_set not_less_eq_eq numeral_2_eq_2)
    then show ?thesis using m l by auto
  next
    case False
    then have "map_of vc k = Some l" using a m by simp
    then obtain k' where k': "k' \<noteq> k" "map_of vc k' = Some l"
      using sh unfolding shared_labels_def by blast
    then have "k' \<notin> (!) OI ` set M" using fresh by (auto simp: dom_def)
    then show ?thesis using k' m by auto
  qed
  then have "shared_labels (map_of ?v)" unfolding shared_labels_def by blast
  moreover have "dom (map_of ?v) \<subseteq> dom (map_of vc) \<union> (!) OI ` set M"
    using m by (auto simp: dom_def split: if_splits)
  ultimately show ?thesis using run by blast
qed

lemma accept_clusters_shared:
  assumes "distinct (concat (map snd cs))" and "\<forall>i \<in> set (concat (map snd cs)). i < length OI"
    and "inj_on ((!) OI) (set (concat (map snd cs)))" and "shared_labels (map_of vc)"
    and "dom (map_of vc) \<inter> (!) OI ` set (concat (map snd cs)) = {}"
  shows "\<exists>c' v'. accept_clusters OI cs (c, vc) = Inr (c', v') \<and> shared_labels (map_of v') \<and>
           dom (map_of v') \<subseteq> dom (map_of vc) \<union> (!) OI ` set (concat (map snd cs))"
  using assms
proof (induction cs arbitrary: c vc)
  case Nil
  then show ?case by simp
next
  case (Cons p cs)
  obtain l M where p: "p = (l, M)" by (cases p)
  let ?rest = "set (concat (map snd cs))"
  have dM: "distinct M" and dcs: "distinct (concat (map snd cs))" and disj: "set M \<inter> ?rest = {}"
    using Cons.prems(1) by (auto simp: p)
  have rM: "\<forall>i \<in> set M. i < length OI" and rcs: "\<forall>i \<in> ?rest. i < length OI"
    using Cons.prems(2) by (auto simp: p)
  have injall: "inj_on ((!) OI) (set M \<union> ?rest)" using Cons.prems(3) by (simp add: p)
  have injM: "inj_on ((!) OI) (set M)" and injcs: "inj_on ((!) OI) ?rest"
    using injall by (auto intro: inj_on_subset)
  have frM: "dom (map_of vc) \<inter> (!) OI ` set M = {}" and frcs: "dom (map_of vc) \<inter> (!) OI ` ?rest = {}"
    using Cons.prems(5) by (auto simp: p)
  from accept_cluster_shared [OF dM rM injM Cons.prems(4) frM, of c] obtain c1 v1 where
    run1: "accept_cluster OI M (c, vc) = Inr (c1, v1)" and sh1: "shared_labels (map_of v1)"
    and dom1: "dom (map_of v1) \<subseteq> dom (map_of vc) \<union> (!) OI ` set M" by blast
  have imgdisj: "(!) OI ` set M \<inter> (!) OI ` ?rest = {}"
    using injall disj by (auto dest!: inj_onD)
  have fr1: "dom (map_of v1) \<inter> (!) OI ` ?rest = {}" using dom1 frcs imgdisj by blast
  from Cons.IH [OF dcs rcs injcs sh1 fr1, of c1] obtain c' v' where
    run: "accept_clusters OI cs (c1, v1) = Inr (c', v')" and sh': "shared_labels (map_of v')"
    and dom': "dom (map_of v') \<subseteq> dom (map_of v1) \<union> (!) OI ` ?rest" by blast
  have "accept_clusters OI (p # cs) (c, vc) = Inr (c', v')" using run1 run by (simp add: p)
  moreover have "dom (map_of v') \<subseteq> dom (map_of vc) \<union> (!) OI ` set (concat (map snd (p # cs)))"
    using dom' dom1 by (auto simp: p)
  ultimately show ?case using sh' by blast
qed

lemma valid_data_indices:
  "map (\<lambda>(i, idx, text). idx) (filter (\<lambda>(i, idx, text). P text)
      (List.enumerate n (zip (map fst qwi) (map (\<lambda>(idx, q). g q) qwi))))
   = map fst (filter (\<lambda>(idx, q). P (g q)) qwi)"
  by (induction qwi arbitrary: n) (auto simp: split_beta)

lemma original_indices_eq:
  "map (\<lambda>(i, idx, text). idx) (valid_data qwi)
     = map fst (filter (\<lambda>(idx, q). strip_nonempty (get_question_text q)) qwi)"
  unfolding valid_data_def Let_def by (rule valid_data_indices)

lemma find_similarity_groups_unfold:
  assumes "\<not> (qwi = [] \<or> length (valid_data qwi) < 2)"
  shows "find_similarity_groups hdbscan qwi bi_encoder cross_encoder mcs t use =
     (case (if use then cross_encoder else None) of
        Some ce \<Rightarrow>
          (case verify_clusters ce t (map (\<lambda>(i, idx, text). text) (valid_data qwi))
                  (map (\<lambda>(i, idx, text). idx) (valid_data qwi))
                  (group_by_cluster (List.enumerate 0
                     (hdbscan mcs 1 Eom (bi_encoder (map prepare_e5_text
                        (map (\<lambda>(i, idx, text). text) (valid_data qwi)))))) []) (0, []) of
             Inl e \<Rightarrow> Inl e
           | Inr (cluster_id, verified_clusters) \<Rightarrow> Inr verified_clusters)
      | None \<Rightarrow>
          (case accept_clusters (map (\<lambda>(i, idx, text). idx) (valid_data qwi))
                  (group_by_cluster (List.enumerate 0
                     (hdbscan mcs 1 Eom (bi_encoder (map prepare_e5_text
                        (map (\<lambda>(i, idx, text). text) (valid_data qwi)))))) []) (0, []) of
             Inl e \<Rightarrow> Inl e
           | Inr (cluster_id, verified_clusters) \<Rightarrow> Inr verified_clusters))"
proof -
  have a: "qwi \<noteq> []" and b: "\<not> length (valid_data qwi) < 2" using assms by auto
  show ?thesis unfolding find_similarity_groups_def Let_def if_not_P [OF a] if_not_P [OF b] ..
qed

lemma find_similarity_groups_shared:
  assumes dq: "distinct (map fst qwi)" and enc: "encoder_ok bi_encoder" and cl: "clusterer_ok hdbscan"
  shows "\<exists>m. find_similarity_groups hdbscan qwi bi_encoder cross_encoder mcs t use = Inr m \<and>
           shared_labels (map_of m) \<and> dom (map_of m) \<subseteq> fst ` set qwi"
proof -
  define OI where "OI = map (\<lambda>(i, idx, text). idx) (valid_data qwi)"
  define vt where "vt = map (\<lambda>(i, idx, text). text) (valid_data qwi)"
  define labels where "labels = hdbscan mcs 1 Eom (bi_encoder (map prepare_e5_text vt))"
  define cs where "cs = group_by_cluster (List.enumerate 0 labels) []"
  have empty: "shared_labels (map_of ([] :: (nat \<times> string) list))"
    by (simp add: shared_labels_def)
  show ?thesis
  proof (cases "qwi = [] \<or> length (valid_data qwi) < 2")
    case True
    then have "find_similarity_groups hdbscan qwi bi_encoder cross_encoder mcs t use = Inr []"
      unfolding find_similarity_groups_def by auto
    then show ?thesis using empty by auto
  next
    case False
    note unf = find_similarity_groups_unfold [OF False, of hdbscan bi_encoder cross_encoder mcs t use,
        folded OI_def vt_def, folded labels_def, folded cs_def]
    have OI: "OI = map fst (filter (\<lambda>(idx, q). strip_nonempty (get_question_text q)) qwi)"
      unfolding OI_def by (rule original_indices_eq)
    have dOI: "distinct OI" unfolding OI using dq by (rule distinct_map_filter)
    have sOI: "set OI \<subseteq> fst ` set qwi" unfolding OI by auto
    have "length labels = length (map prepare_e5_text vt)"
      unfolding labels_def using enc cl unfolding encoder_ok_def clusterer_ok_def by simp
    then have len: "length labels = length vt" by simp
    have lenOI: "length OI = length vt" unfolding OI_def vt_def by simp
    from clusters_of_labels [of labels] have
      dcs: "distinct (concat (map snd cs))"
      and rcs: "\<forall>i \<in> set (concat (map snd cs)). i < length vt" unfolding len cs_def by blast+
    have rOI: "\<forall>i \<in> set (concat (map snd cs)). i < length OI" using rcs lenOI by simp
    have inj: "inj_on ((!) OI) (set (concat (map snd cs)))"
      using dOI rOI by (intro inj_on_nth) auto
    have fr: "dom (map_of ([] :: (nat \<times> string) list)) \<inter> (!) OI ` set (concat (map snd cs)) = {}"
      by simp
    have img: "(!) OI ` set (concat (map snd cs)) \<subseteq> fst ` set qwi"
    proof
      fix k assume "k \<in> (!) OI ` set (concat (map snd cs))"
      then obtain i where i: "i \<in> set (concat (map snd cs))" "k = OI ! i" by blast
      have "i < length OI" using rOI i(1) by blast
      then have "k \<in> set OI" unfolding i(2) by (rule nth_mem)
      then show "k \<in> fst ` set qwi" using sOI by blast
    qed
    show ?thesis
    proof (cases "if use then cross_encoder else None")
      case None
      from accept_clusters_shared [OF dcs rOI inj empty fr, of 0] obtain c' v' where
        run: "accept_clusters OI cs (0, []) = Inr (c', v')" and sh: "shared_labels (map_of v')"
        and dom: "dom (map_of v') \<subseteq> dom (map_of ([] :: (nat \<times> string) list)) \<union> (!) OI ` set (concat (map snd cs))"
        by blast
      have "find_similarity_groups hdbscan qwi bi_encoder cross_encoder mcs t use = Inr v'"
        unfolding unf None using run by simp
      moreover have "dom (map_of v') \<subseteq> fst ` set qwi" using dom img by auto
      ultimately show ?thesis using sh by blast
    next
      case (Some ce)
      from verify_clusters_shared [OF dcs rcs inj empty fr, of ce t 0] obtain c' v' where
        run: "verify_clusters ce t vt OI cs (0, []) = Inr (c', v')" and sh: "shared_labels (map_of v')"
        and dom: "dom (map_of v') \<subseteq> dom (map_of ([] :: (nat \<times> string) list)) \<union> (!) OI ` set (concat (map snd cs))"
        by blast
      have "find_similarity_groups hdbscan qwi bi_encoder cross_encoder mcs t use = Inr v'"
        unfolding unf Some using run by simp
      moreover have "dom (map_of v') \<subseteq> fst ` set qwi" using dom img by auto
      ultimately show ?thesis using sh by blast
    qed
  qed
qed

lemma eligible_indices:
  "distinct (map fst (filter (\<lambda>(idx, q). eligible q) (List.enumerate n qs))) \<and>
   fst ` set (filter (\<lambda>(idx, q). eligible q) (List.enumerate n qs))
     = {i. n \<le> i \<and> i < n + length qs \<and> eligible (qs ! (i - n))}"
proof -
  have "distinct (map fst (List.enumerate n qs))" by simp
  then have "distinct (map fst (filter (\<lambda>(idx, q). eligible q) (List.enumerate n qs)))"
    by (rule distinct_map_filter)
  moreover have "fst ` set (filter (\<lambda>(idx, q). eligible q) (List.enumerate n qs))
     = {i. n \<le> i \<and> i < n + length qs \<and> eligible (qs ! (i - n))}"
    by (auto simp: in_set_enumerate_eq image_iff)
  ultimately show ?thesis by simp
qed

lemma length_apply_assignments: "length (apply_assignments m qs) = length qs"
  by (simp add: apply_assignments_def)

lemma nth_apply_assignments:
  "i < length qs \<Longrightarrow> apply_assignments m qs ! i =
     (qs ! i)\<lparr>similarity_group_id := (case map_of m i of None \<Rightarrow> Null | Some l \<Rightarrow> Label l)\<rparr>"
  by (simp add: apply_assignments_def nth_enumerate_eq)

lemma run_stage1_total:
  assumes enc: "encoder_ok bi_encoder" and cl: "clusterer_ok hdbscan"
  shows "\<exists>m. find_similarity_groups hdbscan (filter (\<lambda>(idx, q). eligible q) (List.enumerate 0 qs))
             bi_encoder cross_encoder mcs t use = Inr m \<and>
           run_stage1 hdbscan qs bi_encoder cross_encoder mcs t use = Inr (apply_assignments m qs) \<and>
           shared_labels (map_of m) \<and>
           dom (map_of m) \<subseteq> {i. i < length qs \<and> eligible (qs ! i)}"
proof -
  let ?qwi = "filter (\<lambda>(idx, q). eligible q) (List.enumerate 0 qs)"
  from eligible_indices [of 0 qs] have d: "distinct (map fst ?qwi)"
    and s: "fst ` set ?qwi = {i. i < length qs \<and> eligible (qs ! i)}" by simp_all
  from find_similarity_groups_shared [OF d enc cl, of cross_encoder mcs t use] obtain m where
    m: "find_similarity_groups hdbscan ?qwi bi_encoder cross_encoder mcs t use = Inr m"
    and sh: "shared_labels (map_of m)" and dom: "dom (map_of m) \<subseteq> fst ` set ?qwi" by blast
  have "run_stage1 hdbscan qs bi_encoder cross_encoder mcs t use = Inr (apply_assignments m qs)"
    unfolding run_stage1_def Let_def m by simp
  then show ?thesis using m sh dom unfolding s by blast
qed

lemma same_payload_update:
  "same_payload q q' \<Longrightarrow> q\<lparr>similarity_group_id := v\<rparr> = q'\<lparr>similarity_group_id := v\<rparr>"
  by (cases q, cases q') (simp add: same_payload_def)

lemma same_payload_qwi:
  "list_all2 same_payload other qs \<Longrightarrow>
     map (\<lambda>(idx, q). (idx, get_question_text q)) (filter (\<lambda>(idx, q). eligible q) (List.enumerate n other))
     = map (\<lambda>(idx, q). (idx, get_question_text q)) (filter (\<lambda>(idx, q). eligible q) (List.enumerate n qs))"
proof (induction other qs arbitrary: n rule: list_all2_induct)
  case Nil
  then show ?case by simp
next
  case (Cons q other q' qs)
  then show ?case by (simp add: same_payload_def eligible_def get_question_text_def)
qed

lemma same_payload_map:
  fixes f :: "nat \<Rightarrow> label_field"
  shows "list_all2 same_payload other qs \<Longrightarrow>
      map (\<lambda>(idx, q). q\<lparr>similarity_group_id := f idx\<rparr>) (List.enumerate n other)
      = map (\<lambda>(idx, q). q\<lparr>similarity_group_id := f idx\<rparr>) (List.enumerate n qs)"
proof (induction other qs arbitrary: n rule: list_all2_induct)
  case Nil
  then show ?case by simp
next
  case (Cons q other q' qs)
  then show ?case by (simp add: same_payload_update)
qed

lemma same_payload_apply:
  "list_all2 same_payload other qs \<Longrightarrow> apply_assignments m other = apply_assignments m qs"
  unfolding apply_assignments_def by (rule same_payload_map)

lemma valid_data_texts:
  "valid_data qwi = filter (\<lambda>(i, idx, text). strip_nonempty text)
      (List.enumerate 0 (map (\<lambda>(idx, q). (idx, get_question_text q)) qwi))"
proof -
  have "zip (map fst qwi) (map (\<lambda>(idx, q). get_question_text q) qwi)
      = map (\<lambda>(idx, q). (idx, get_question_text q)) qwi"
    by (induction qwi) auto
  then show ?thesis unfolding valid_data_def Let_def by simp
qed

lemma find_similarity_groups_cong:
  assumes "map (\<lambda>(idx, q). (idx, get_question_text q)) qwi' = map (\<lambda>(idx, q). (idx, get_question_text q)) qwi"
  shows "find_similarity_groups hdbscan qwi' bi_encoder cross_encoder mcs t use
       = find_similarity_groups hdbscan qwi bi_encoder cross_encoder mcs t use"
proof -
  have v: "valid_data qwi' = valid_data qwi" unfolding valid_data_texts assms ..
  have "length qwi' = length qwi" using assms by (metis length_map)
  then have e: "(qwi' = []) = (qwi = [])" by auto
  show ?thesis unfolding find_similarity_groups_def v e ..
qed

lemma run_stage1_cong:
  assumes "list_all2 same_payload other qs"
  shows "run_stage1 hdbscan other bi_encoder cross_encoder mcs t use
       = run_stage1 hdbscan qs bi_encoder cross_encoder mcs t use"
  unfolding run_stage1_def Let_def
    find_similarity_groups_cong [OF same_payload_qwi [OF assms]] same_payload_apply [OF assms] ..

section \<open>Stage 2: the hierarchical fallback\<close>

lemma update_fresh: "k \<notin> fst ` set al \<Longrightarrow> AList.update k v al = al @ [(k, v)]"
  by (induction al) auto

lemma build_assignments_fresh:
  assumes "distinct (map (\<lambda>(i, l). indices ! i) es)"
    and "fst ` set acc \<inter> (\<lambda>(i, l). indices ! i) ` set es = {}"
  shows "build_assignments indices es acc = acc @ map (\<lambda>(i, l). (indices ! i, l)) es"
  using assms
proof (induction es arbitrary: acc)
  case Nil
  then show ?case by simp
next
  case (Cons e es)
  obtain i l where e: "e = (i, l)" by (cases e)
  have fresh: "indices ! i \<notin> fst ` set acc" using Cons.prems(2) by (auto simp: e)
  have d: "distinct (map (\<lambda>(i, l). indices ! i) es)" using Cons.prems(1) by simp
  have "fst ` set (acc @ [(indices ! i, l)]) \<inter> (\<lambda>(i, l). indices ! i) ` set es = {}"
    using Cons.prems by (auto simp: e)
  from Cons.IH [OF d this] show ?case by (simp add: e update_fresh [OF fresh])
qed

lemma assignments_zip:
  assumes "distinct indices" and "length labels \<le> length indices"
  shows "build_assignments indices (List.enumerate 0 labels) [] = zip (take (length labels) indices) labels"
proof -
  have m: "map (\<lambda>(i, l). f (indices ! i) l) (List.enumerate 0 labels)
      = map (\<lambda>(k, l). f k l) (zip (take (length labels) indices) labels)" for f :: "nat \<Rightarrow> nat \<Rightarrow> 'b"
    using assms(2) by (intro nth_equalityI) (auto simp: nth_enumerate_eq)
  have "map (\<lambda>(i, l). indices ! i) (List.enumerate 0 labels) = take (length labels) indices"
    using assms(2) by (intro nth_equalityI) (auto simp: nth_enumerate_eq)
  then have "distinct (map (\<lambda>(i, l). indices ! i) (List.enumerate 0 labels))"
    using assms(1) by simp
  from build_assignments_fresh [OF this, of "[]"]
  have "build_assignments indices (List.enumerate 0 labels) []
      = map (\<lambda>(i, l). (indices ! i, l)) (List.enumerate 0 labels)" by simp
  also have "\<dots> = map (\<lambda>(k, l). (k, l)) (zip (take (length labels) indices) labels)"
    using m [of Pair] by simp
  finally show ?thesis by simp
qed

lemma count_groups_map_of:
  "distinct (map fst gc) \<Longrightarrow>
   distinct (map fst (count_groups ls gc)) \<and>
   (\<forall>l. map_of (count_groups ls gc) l =
      (if l \<in> set ls \<or> l \<in> fst ` set gc
       then Some ((case map_of gc l of None \<Rightarrow> 0 | Some c \<Rightarrow> c) + count_list ls l) else None))"
proof (induction ls arbitrary: gc)
  case Nil
  then show ?case by (auto simp: map_of_eq_None_iff split: option.splits)
next
  case (Cons x ls)
  let ?gc = "AList.update x ((case map_of gc x of None \<Rightarrow> 0 | Some c \<Rightarrow> c) + 1) gc"
  have d: "distinct (map fst ?gc)" using Cons.prems by (rule distinct_update)
  have m: "map_of ?gc = (map_of gc)(x \<mapsto> (case map_of gc x of None \<Rightarrow> 0 | Some c \<Rightarrow> c) + 1)"
    by (rule update_conv')
  have k: "fst ` set ?gc = insert x (fst ` set gc)" by (simp add: dom_update)
  from Cons.IH [OF d] show ?case unfolding count_groups.simps m k by auto
qed


lemma valid_groups_char:
  "distinct (map fst (filter (\<lambda>(l, c). c \<ge> 2) (count_groups labels []))) \<and>
   set (map fst (filter (\<lambda>(l, c). c \<ge> 2) (count_groups labels []))) = surviving labels"
proof -
  let ?gc = "count_groups labels []"
  from count_groups_map_of [of "[]" labels] have d: "distinct (map fst ?gc)"
    and m: "\<And>l. map_of ?gc l = (if l \<in> set labels then Some (count_list labels l) else None)"
    by simp_all
  have "((l, c) \<in> set ?gc) = (l \<in> set labels \<and> c = count_list labels l)" for l c
    using map_of_eq_Some_iff [OF d, of l c] m [of l] by (auto split: if_splits)
  then have "set (map fst (filter (\<lambda>(l, c). c \<ge> 2) ?gc)) = surviving labels"
    by (auto simp: surviving_def image_iff)
  moreover have "distinct (map fst (filter (\<lambda>(l, c). c \<ge> 2) ?gc))"
    using d by (rule distinct_map_filter)
  ultimately show ?thesis by simp
qed

lemma length_dist_matrix: "length (dist_matrix ce texts n) = n"
proof -
  have "length (fill_sim_matrix zs m) = length m" for zs m
    by (induction zs m rule: fill_sim_matrix.induct) (simp_all add: set_entry_def)
  then show ?thesis by (simp add: dist_matrix_def Let_def fill_diagonal_def)
qed

lemma fallback_closed_form:
  fixes fcluster :: hierarchy
  assumes d: "distinct indices" and n4: "4 \<le> length indices" and tx: "length indices \<le> length texts"
    and len: "length (fcluster (dist_matrix ce texts (length indices)) (1 - threshold)) \<le> length indices"
  shows "try_split_with_cross_encoder fcluster questions indices texts ce threshold =
     (if card (set (fcluster (dist_matrix ce texts (length indices)) (1 - threshold))) \<le> 1 \<or>
         card (surviving (fcluster (dist_matrix ce texts (length indices)) (1 - threshold))) \<le> 1
      then Inr None
      else Inr (Some (filter (\<lambda>(idx, l). l \<in> surviving (fcluster (dist_matrix ce texts (length indices)) (1 - threshold)))
             (zip (take (length (fcluster (dist_matrix ce texts (length indices)) (1 - threshold))) indices)
                  (fcluster (dist_matrix ce texts (length indices)) (1 - threshold))))))"
proof -
  define labels where "labels = fcluster (dist_matrix ce texts (length indices)) (1 - threshold)"
  define assignments where "assignments = zip (take (length labels) indices) labels"
  define valid where "valid = map fst (filter (\<lambda>(l, c). c \<ge> 2) (count_groups labels []))"
  define filtered where "filtered = filter (\<lambda>(idx, l). l \<in> surviving labels) assignments"
  have len': "length labels \<le> length indices" using len unfolding labels_def .
  have a: "build_assignments indices (List.enumerate 0 labels) [] = assignments"
    unfolding assignments_def using d len' by (rule assignments_zip)
  have vals: "map snd assignments = labels" unfolding assignments_def using len' by simp
  have v: "distinct valid" "set valid = surviving labels"
    using valid_groups_char [of labels] unfolding valid_def by simp_all
  have lv: "length valid = card (surviving labels)" using v by (metis distinct_card)
  have lr: "length (remdups labels) = card (set labels)" by (rule length_remdups_card_conv)
  have "set (map snd filtered) = surviving labels"
  proof
    show "set (map snd filtered) \<subseteq> surviving labels" unfolding filtered_def by auto
    show "surviving labels \<subseteq> set (map snd filtered)"
    proof
      fix l assume l: "l \<in> surviving labels"
      then have "l \<in> set (map snd assignments)" unfolding vals surviving_def by simp
      then obtain k where "(k, l) \<in> set assignments" by auto
      then have "(k, l) \<in> set filtered" unfolding filtered_def using l by simp
      then show "l \<in> set (map snd filtered)" by force
    qed
  qed
  then have lf: "length (remdups (map snd filtered)) = card (surviving labels)"
    by (simp add: length_remdups_card_conv)
  have c1: "\<not> length indices < 4" using n4 by simp
  have c2: "\<not> length texts < length indices" using tx by simp
  have c3: "\<not> length indices < length labels" using len' by simp
  have "try_split_with_cross_encoder fcluster questions indices texts ce threshold =
     (if length (remdups labels) \<le> 1 then Inr None
      else if length valid \<le> 1 then Inr None
      else if length (remdups (map snd (filter (\<lambda>(idx, label). label \<in> set valid) assignments))) > 1
           then Inr (Some (filter (\<lambda>(idx, label). label \<in> set valid) assignments)) else Inr None)"
    unfolding try_split_with_cross_encoder_def Let_def labels_def [symmetric]
      if_not_P [OF c1] if_not_P [OF c2] if_not_P [OF c3] a vals valid_def [symmetric] ..
  also have "\<dots> = (if card (set labels) \<le> 1 \<or> card (surviving labels) \<le> 1 then Inr None
      else Inr (Some filtered))"
    unfolding v(2) filtered_def [symmetric] lf lr lv by auto
  finally show ?thesis unfolding filtered_def assignments_def labels_def .
qed

lemma surviving_subset: "surviving labels \<subseteq> set labels"
  by (auto simp: surviving_def)

lemma surviving_example: "surviving [1, 1, 2, 3, 3] = {1, 3}"
  by (auto simp: surviving_def)

lemma fallback_example:
  "try_split_with_cross_encoder (\<lambda>dist t. [1, 1, 2, 3, 3]) [] [10, 11, 12, 13, 14]
       [''a'', ''b'', ''c'', ''d'', ''e''] (\<lambda>a b. 0.5) 0.85
     = Inr (Some [(10, 1), (11, 1), (13, 3), (14, 3)])"
proof -
  have h1: "distinct [10, 11, 12, 13, 14 :: nat]" by simp
  have h2: "4 \<le> length [10, 11, 12, 13, 14 :: nat]" by simp
  have h3: "length [10, 11, 12, 13, 14 :: nat] \<le> length [''a'', ''b'', ''c'', ''d'', ''e'']" by simp
  have h4: "length ((\<lambda>dist t. [1, 1, 2, 3, 3 :: nat])
      (dist_matrix (\<lambda>a b. 0.5) [''a'', ''b'', ''c'', ''d'', ''e''] (length [10, 11, 12, 13, 14 :: nat]))
      (1 - 0.85 :: real)) \<le> length [10, 11, 12, 13, 14 :: nat]" by simp
  show ?thesis
    unfolding fallback_closed_form [where fcluster = "\<lambda>dist t. [1, 1, 2, 3, 3]"
        and indices = "[10, 11, 12, 13, 14]" and texts = "[''a'', ''b'', ''c'', ''d'', ''e'']"
        and ce = "\<lambda>a b. 0.5" and threshold = "0.85", OF h1 h2 h3 h4] surviving_example by simp
qed

lemma distinct_assign_component:
  "distinct (map fst vc) \<Longrightarrow> distinct (map fst (assign_component keys v c vc))"
  by (induction c arbitrary: vc) (simp_all add: distinct_update)

lemma distinct_label_components:
  "distinct (map fst vc) \<Longrightarrow> distinct (map fst (snd (label_components keys mk c comps vc)))"
  by (induction comps arbitrary: c vc) (simp_all add: distinct_assign_component)

lemma verify_sub_cluster_distinct:
  assumes "verify_sub_cluster ce t texts I M (c, vc) = Inr (c', v')" and "distinct (map fst vc)"
  shows "distinct (map fst v')"
proof (cases "2 \<le> length M \<and> (\<forall>i \<in> set M. i < length texts)")
  case True
  then have two: "2 \<le> length M" and r: "\<forall>i \<in> set M. i < length texts" by simp_all
  show ?thesis
    using assms(1) unfolding verify_sub_cluster_eq [OF two r] sub_components_loop_fission
    using distinct_label_components [OF assms(2)] by (metis Inr_inject snd_conv)
next
  case False
  then have "verify_sub_cluster ce t texts I M (c, vc) = Inr (c, vc) \<or>
      verify_sub_cluster ce t texts I M (c, vc) = Inl IndexError"
    by (auto simp: verify_sub_cluster_def not_less)
  then show ?thesis using assms by auto
qed

lemma verify_sub_cluster_shared:
  fixes ce :: cross_encoder
  assumes d: "distinct M" and r: "\<forall>i \<in> set M. i < length texts"
    and inj: "inj_on ((!) I) (set M)" and sh: "shared_labels (map_of vc)"
    and fresh: "dom (map_of vc) \<inter> (!) I ` set M = {}"
  shows "\<exists>c' v'. verify_sub_cluster ce t texts I M (c, vc) = Inr (c', v') \<and> shared_labels (map_of v') \<and>
           dom (map_of v') \<subseteq> dom (map_of vc) \<union> (!) I ` set M"
proof (cases "length M < 2")
  case True
  then have "verify_sub_cluster ce t texts I M (c, vc) = Inr (c, vc)" by (simp add: verify_sub_cluster_def)
  then show ?thesis using sh by auto
next
  case False
  then have two: "2 \<le> length M" by simp
  let ?key = "\<lambda>node. I ! (M ! node)"
  let ?E = "bounded_edges ce t (map ((!) texts) M)"
  have kinj: "inj_on ?key {..<length M}" using d inj by (rule key_inj)
  from verify_sub_cluster_labelled [OF two r kinj, of ce t c vc] obtain c' v' where
    run: "verify_sub_cluster ce t texts I M (c, vc) = Inr (c', v')"
    and ok: "labelled_ok ?E (length M) ?key (\<lambda>k. k) c (map_of vc) c' (map_of v')" by blast
  have fr: "\<forall>i < length M. map_of vc (?key i) = None"
  proof (intro allI impI)
    fix i assume "i < length M"
    then have "?key i \<in> (!) I ` set M" by auto
    then show "map_of vc (?key i) = None" using fresh by (auto simp: dom_def)
  qed
  have rng: "?E \<subseteq> {..<length M} \<times> {..<length M}"
    using bounded_edges_range [of ce t "map ((!) texts) M"] by simp
  from labelled_ok_shared [OF ok bounded_edges_sym rng bounded_edges_irrefl kinj sh fr]
  show ?thesis using run unfolding key_image by blast
qed

lemma verify_sub_clusters_shared:
  fixes ce :: cross_encoder
  assumes "distinct (concat (map snd cs))" and "\<forall>i \<in> set (concat (map snd cs)). i < length texts"
    and "inj_on ((!) I) (set (concat (map snd cs)))" and "shared_labels (map_of vc)"
    and "dom (map_of vc) \<inter> (!) I ` set (concat (map snd cs)) = {}"
    and "distinct (map fst vc)"
  shows "\<exists>c' v'. verify_sub_clusters ce t texts I cs (c, vc) = Inr (c', v') \<and> shared_labels (map_of v') \<and>
           dom (map_of v') \<subseteq> dom (map_of vc) \<union> (!) I ` set (concat (map snd cs)) \<and>
           distinct (map fst v')"
  using assms
proof (induction cs arbitrary: c vc)
  case Nil
  then show ?case by simp
next
  case (Cons p cs)
  obtain l M where p: "p = (l, M)" by (cases p)
  let ?rest = "set (concat (map snd cs))"
  have dM: "distinct M" and dcs: "distinct (concat (map snd cs))" and disj: "set M \<inter> ?rest = {}"
    using Cons.prems(1) by (auto simp: p)
  have rM: "\<forall>i \<in> set M. i < length texts" and rcs: "\<forall>i \<in> ?rest. i < length texts"
    using Cons.prems(2) by (auto simp: p)
  have injall: "inj_on ((!) I) (set M \<union> ?rest)" using Cons.prems(3) by (simp add: p)
  have injM: "inj_on ((!) I) (set M)" and injcs: "inj_on ((!) I) ?rest"
    using injall by (auto intro: inj_on_subset)
  have frM: "dom (map_of vc) \<inter> (!) I ` set M = {}" and frcs: "dom (map_of vc) \<inter> (!) I ` ?rest = {}"
    using Cons.prems(5) by (auto simp: p)
  from verify_sub_cluster_shared [OF dM rM injM Cons.prems(4) frM, of ce t c] obtain c1 v1 where
    run1: "verify_sub_cluster ce t texts I M (c, vc) = Inr (c1, v1)" and sh1: "shared_labels (map_of v1)"
    and dom1: "dom (map_of v1) \<subseteq> dom (map_of vc) \<union> (!) I ` set M" by blast
  have d1: "distinct (map fst v1)" using run1 Cons.prems(6) by (rule verify_sub_cluster_distinct)
  have imgdisj: "(!) I ` set M \<inter> (!) I ` ?rest = {}"
    using injall disj by (auto dest!: inj_onD)
  have fr1: "dom (map_of v1) \<inter> (!) I ` ?rest = {}" using dom1 frcs imgdisj by blast
  from Cons.IH [OF dcs rcs injcs sh1 fr1 d1, of c1] obtain c' v' where
    run: "verify_sub_clusters ce t texts I cs (c1, v1) = Inr (c', v')" and sh': "shared_labels (map_of v')"
    and dom': "dom (map_of v') \<subseteq> dom (map_of v1) \<union> (!) I ` ?rest"
    and d': "distinct (map fst v')" by blast
  have "verify_sub_clusters ce t texts I (p # cs) (c, vc) = Inr (c', v')" using run1 run by (simp add: p)
  moreover have "dom (map_of v') \<subseteq> dom (map_of vc) \<union> (!) I ` set (concat (map snd (p # cs)))"
    using dom' dom1 by (auto simp: p)
  ultimately show ?case using sh' d' by blast
qed

lemma count_list_other:
  "2 \<le> count_list xs x \<Longrightarrow> i < length xs \<Longrightarrow> \<exists>j < length xs. j \<noteq> i \<and> xs ! j = x"
proof (induction xs arbitrary: i)
  case Nil
  then show ?case by simp
next
  case (Cons y ys)
  show ?case
  proof (cases i)
    case 0
    have "count_list ys x \<noteq> 0" using Cons.prems(1) by (auto split: if_splits)
    then have "x \<in> set ys" by (simp add: count_list_0_iff)
    then obtain j where "j < length ys" "ys ! j = x" by (auto simp: in_set_conv_nth)
    then have "Suc j < length (y # ys) \<and> Suc j \<noteq> i \<and> (y # ys) ! Suc j = x" using 0 by simp
    then show ?thesis by blast
  next
    case (Suc i')
    show ?thesis
    proof (cases "y = x")
      case True
      then have "0 < length (y # ys) \<and> 0 \<noteq> i \<and> (y # ys) ! 0 = x" using Suc by simp
      then show ?thesis by blast
    next
      case False
      then have "2 \<le> count_list ys x" using Cons.prems(1) by simp
      moreover have "i' < length ys" using Cons.prems(2) Suc by simp
      ultimately obtain j where "j < length ys" "j \<noteq> i'" "ys ! j = x" using Cons.IH by blast
      then have "Suc j < length (y # ys) \<and> Suc j \<noteq> i \<and> (y # ys) ! Suc j = x" using Suc by simp
      then show ?thesis by blast
    qed
  qed
qed

lemma survivors_shared:
  assumes d: "distinct indices" and len: "length labels \<le> length indices"
  defines "sr \<equiv> filter (\<lambda>(idx, l). l \<in> surviving labels) (zip (take (length labels) indices) labels)"
  shows "distinct (map fst sr) \<and> fst ` set sr \<subseteq> set indices \<and> shared_labels (map_of sr)"
proof -
  let ?z = "zip (take (length labels) indices) labels"
  have dz: "distinct (map fst ?z)" using d len by (simp add: map_fst_zip_take min_def)
  then have dsr: "distinct (map fst sr)" unfolding sr_def by (rule distinct_map_filter)
  have sub: "fst ` set sr \<subseteq> set indices"
    unfolding sr_def by (auto dest!: set_zip_leftD in_set_takeD)
  have "\<exists>k'. k' \<noteq> k \<and> map_of sr k' = Some l" if a: "map_of sr k = Some l" for k l
  proof -
    from a have mem: "(k, l) \<in> set sr" by (rule map_of_SomeD)
    then have kl: "(k, l) \<in> set ?z" and sv: "l \<in> surviving labels" unfolding sr_def by auto
    from kl obtain i where i: "i < length labels" "k = indices ! i" "l = labels ! i"
      by (auto simp: set_zip)
    have "2 \<le> count_list labels l" using sv by (simp add: surviving_def)
    from count_list_other [OF this i(1)] obtain j where
      j: "j < length labels" "j \<noteq> i" "labels ! j = l" by blast
    have "(indices ! j, l) \<in> set ?z" using j len by (auto simp: set_zip intro!: exI [of _ j])
    then have "(indices ! j, l) \<in> set sr" unfolding sr_def using sv by simp
    then have "map_of sr (indices ! j) = Some l" using dsr by simp
    moreover have "indices ! j \<noteq> k" using d i j len by (simp add: nth_eq_iff_index_eq)
    ultimately show ?thesis by blast
  qed
  then have "shared_labels (map_of sr)" unfolding shared_labels_def by blast
  then show ?thesis using dsr sub by simp
qed

lemma try_split_group_short:
  "length indices < 4 \<Longrightarrow>
     try_split_group hdbscan fcluster questions indices bi_encoder ce t = Inr None"
  by (simp add: try_split_group_def)

lemma try_split_group_fallback:
  assumes "4 \<le> length indices" and "\<forall>i \<in> set indices. i < length questions"
    and "length (remdups (filter (\<lambda>l. l \<noteq> - 1)
           (hdbscan 2 2 Leaf (bi_encoder (map prepare_e5_text
              (map (\<lambda>i. get_question_text (questions ! i)) indices)))))) \<le> 1"
  shows "try_split_group hdbscan fcluster questions indices bi_encoder ce t =
     try_split_with_cross_encoder fcluster questions indices
       (map (\<lambda>i. get_question_text (questions ! i)) indices) ce t"
proof -
  have a: "\<not> length indices < 4" using assms(1) by simp
  have b: "\<not> (\<exists>i \<in> set indices. length questions \<le> i)" using assms(2) by auto
  show ?thesis
    unfolding try_split_group_def Let_def if_not_P [OF a] if_not_P [OF b] if_P [OF assms(3)] ..
qed

lemma try_split_group_fine:
  assumes "4 \<le> length indices" and "\<forall>i \<in> set indices. i < length questions"
    and "1 < length (remdups (filter (\<lambda>l. l \<noteq> - 1)
           (hdbscan 2 2 Leaf (bi_encoder (map prepare_e5_text
              (map (\<lambda>i. get_question_text (questions ! i)) indices))))))"
  shows "try_split_group hdbscan fcluster questions indices bi_encoder ce t =
     (case verify_sub_clusters ce t (map (\<lambda>i. get_question_text (questions ! i)) indices) indices
             (group_by_cluster (List.enumerate 0
                (hdbscan 2 2 Leaf (bi_encoder (map prepare_e5_text
                   (map (\<lambda>i. get_question_text (questions ! i)) indices))))) []) (0, []) of
        Inl e \<Rightarrow> Inl e
      | Inr (sub_group_counter, verified_assignments) \<Rightarrow>
          if length (remdups (map snd verified_assignments)) > 1
          then Inr (Some verified_assignments) else Inr None)"
proof -
  have a: "\<not> length indices < 4" using assms(1) by simp
  have b: "\<not> (\<exists>i \<in> set indices. length questions \<le> i)" using assms(2) by auto
  have c: "\<not> length (remdups (filter (\<lambda>l. l \<noteq> - 1)
           (hdbscan 2 2 Leaf (bi_encoder (map prepare_e5_text
              (map (\<lambda>i. get_question_text (questions ! i)) indices)))))) \<le> 1" using assms(3) by simp
  show ?thesis
    unfolding try_split_group_def Let_def if_not_P [OF a] if_not_P [OF b] if_not_P [OF c] ..
qed

lemma try_split_group_result:
  fixes fcluster :: hierarchy
  assumes d: "distinct indices" and r: "\<forall>i \<in> set indices. i < length questions"
    and enc: "encoder_ok bi_encoder" and cl: "clusterer_ok hdbscan" and h: "hierarchy_ok fcluster"
  shows "\<exists>res. try_split_group hdbscan fcluster questions indices bi_encoder ce t = Inr res \<and>
     (\<forall>sr. res = Some sr \<longrightarrow>
        distinct (map fst sr) \<and> fst ` set sr \<subseteq> set indices \<and> shared_labels (map_of sr))"
proof (cases "length indices < 4")
  case True
  then show ?thesis by (simp add: try_split_group_short)
next
  case False
  then have four: "4 \<le> length indices" by simp
  define texts where "texts = map (\<lambda>i. get_question_text (questions ! i)) indices"
  define L where "L = hdbscan 2 2 Leaf (bi_encoder (map prepare_e5_text texts))"
  have lt: "length texts = length indices" by (simp add: texts_def)
  have lL: "length L = length indices"
    using enc cl unfolding L_def encoder_ok_def clusterer_ok_def by (simp add: lt)
  show ?thesis
  proof (cases "length (remdups (filter (\<lambda>l. l \<noteq> - 1) L)) \<le> 1")
    case True
    have eq: "try_split_group hdbscan fcluster questions indices bi_encoder ce t =
        try_split_with_cross_encoder fcluster questions indices texts ce t"
      using try_split_group_fallback [OF four r, of hdbscan bi_encoder fcluster ce t] True
      unfolding L_def texts_def by simp
    define C where "C = fcluster (dist_matrix ce texts (length indices)) (1 - t)"
    have lC: "length C \<le> length indices"
      using h unfolding C_def hierarchy_ok_def by (simp add: length_dist_matrix)
    have tx: "length indices \<le> length texts" using lt by simp
    note cf = fallback_closed_form [where fcluster = fcluster and indices = indices and texts = texts
        and ce = ce and threshold = t and questions = questions, OF d four tx lC [unfolded C_def],
        folded C_def]
    from survivors_shared [OF d lC] show ?thesis unfolding eq cf by auto
  next
    case False
    then have many: "1 < length (remdups (filter (\<lambda>l. l \<noteq> - 1) L))" by simp
    define cs where "cs = group_by_cluster (List.enumerate 0 L) []"
    have eq: "try_split_group hdbscan fcluster questions indices bi_encoder ce t =
        (case verify_sub_clusters ce t texts indices cs (0, []) of
           Inl e \<Rightarrow> Inl e
         | Inr (sub_group_counter, verified_assignments) \<Rightarrow>
             if length (remdups (map snd verified_assignments)) > 1
             then Inr (Some verified_assignments) else Inr None)"
      using try_split_group_fine [OF four r, of hdbscan bi_encoder fcluster ce t] many
      unfolding L_def texts_def cs_def by simp
    from clusters_of_labels [of L] have dcs: "distinct (concat (map snd cs))"
      and rcs: "\<forall>i \<in> set (concat (map snd cs)). i < length texts"
      unfolding cs_def lL lt by simp_all
    have inj: "inj_on ((!) indices) (set (concat (map snd cs)))"
      using d rcs unfolding lt by (auto simp: inj_on_def nth_eq_iff_index_eq)
    have sh0: "shared_labels (map_of ([] :: (nat \<times> nat) list))" by (simp add: shared_labels_def)
    from verify_sub_clusters_shared [OF dcs rcs inj sh0, of ce t 0] obtain c' v' where
      run: "verify_sub_clusters ce t texts indices cs (0, []) = Inr (c', v')"
      and sh: "shared_labels (map_of v')"
      and dom: "dom (map_of v') \<subseteq> (!) indices ` set (concat (map snd cs))"
      and dv: "distinct (map fst v')" by auto
    have "(!) indices ` set (concat (map snd cs)) \<subseteq> set indices" using rcs unfolding lt by auto
    then have "fst ` set v' \<subseteq> set indices" using dom by (simp add: dom_map_of_conv_image_fst)
    then show ?thesis unfolding eq run using sh dv by simp
  qed
qed

lemma length_unique_labels:
  "length (remdups (filter (\<lambda>l. l \<noteq> - 1) L)) = card (fine_clusters L)"
proof -
  have "set (filter (\<lambda>l. l \<noteq> - 1) L) = fine_clusters L" by (auto simp: fine_clusters_def)
  then show ?thesis by (simp add: length_remdups_card_conv)
qed

lemma try_split_group_fallback':
  assumes "4 \<le> length indices" and "\<forall>i \<in> set indices. i < length questions"
    and "card (fine_clusters (fine_labels hdbscan bi_encoder questions indices)) \<le> 1"
  shows "try_split_group hdbscan fcluster questions indices bi_encoder ce t =
     try_split_with_cross_encoder fcluster questions indices (group_texts questions indices) ce t"
  using try_split_group_fallback [OF assms(1,2), of hdbscan bi_encoder fcluster ce t] assms(3)
  unfolding length_unique_labels fine_labels_def group_texts_def by simp

lemma try_split_group_fine':
  assumes "4 \<le> length indices" and "\<forall>i \<in> set indices. i < length questions"
    and "2 \<le> card (fine_clusters (fine_labels hdbscan bi_encoder questions indices))"
  shows "try_split_group hdbscan fcluster questions indices bi_encoder ce t =
     (case verify_sub_clusters ce t (group_texts questions indices) indices
             (group_by_cluster (List.enumerate 0 (fine_labels hdbscan bi_encoder questions indices)) [])
             (0, []) of
        Inl e \<Rightarrow> Inl e
      | Inr (sub_group_counter, verified_assignments) \<Rightarrow>
          if length (remdups (map snd verified_assignments)) > 1
          then Inr (Some verified_assignments) else Inr None)"
  using try_split_group_fine [OF assms(1,2), of hdbscan bi_encoder fcluster ce t] assms(3)
  unfolding length_unique_labels fine_labels_def group_texts_def by simp

lemma fine_pass_total:
  fixes ce :: cross_encoder
  assumes d: "distinct indices" and enc: "encoder_ok bi_encoder" and cl: "clusterer_ok hdbscan"
  shows "\<exists>counter verified.
     verify_sub_clusters ce t (group_texts questions indices) indices
       (group_by_cluster (List.enumerate 0 (fine_labels hdbscan bi_encoder questions indices)) [])
       (0, []) = Inr (counter, verified)"
proof -
  define texts where "texts = group_texts questions indices"
  define L where "L = fine_labels hdbscan bi_encoder questions indices"
  define cs where "cs = group_by_cluster (List.enumerate 0 L) []"
  have lt: "length texts = length indices" by (simp add: texts_def group_texts_def)
  have lL: "length L = length indices"
    using enc cl unfolding L_def fine_labels_def encoder_ok_def clusterer_ok_def
    by (simp add: group_texts_def)
  from clusters_of_labels [of L] have dcs: "distinct (concat (map snd cs))"
    and rcs: "\<forall>i \<in> set (concat (map snd cs)). i < length texts"
    unfolding cs_def lL lt by simp_all
  have inj: "inj_on ((!) indices) (set (concat (map snd cs)))"
    using d rcs unfolding lt by (auto simp: inj_on_def nth_eq_iff_index_eq)
  have sh0: "shared_labels (map_of ([] :: (nat \<times> nat) list))" by (simp add: shared_labels_def)
  from verify_sub_clusters_shared [OF dcs rcs inj sh0, of ce t 0]
  show ?thesis unfolding cs_def L_def texts_def by auto
qed

lemma ex_labels:
  "fine_labels (\<lambda>(mcs :: int) (ms :: int) (sel :: selection_method) (es :: string list).
        map (\<lambda>e. if e = ''query: x'' then 0 else (1 :: int)) es) (\<lambda>texts. texts)
     [\<lparr>success = True, data = Some ''x'', similarity_group_id = Label ''g''\<rparr>,
      \<lparr>success = True, data = Some ''x'', similarity_group_id = Label ''g''\<rparr>,
      \<lparr>success = True, data = Some ''y'', similarity_group_id = Label ''g''\<rparr>,
      \<lparr>success = True, data = Some ''y'', similarity_group_id = Label ''g''\<rparr>] [0, 1, 2, 3]
   = [0, 0, 1, 1]"
  by (simp add: fine_labels_def group_texts_def get_question_text_def prepare_e5_text_def)

lemma ex_run:
  "verify_sub_clusters (\<lambda>a b. 0.1) 0.85 [''x'', ''x'', ''y'', ''y''] [0, 1, 2, 3]
     (group_by_cluster (List.enumerate 0 [0, 0, 1, 1]) []) (0, []) = Inr (0, [])"
  by (simp add: enumerate_eq_zip cluster_get_def verify_sub_cluster_def pair_indices_bounded_def
      text_pairs_def predict_def bfs.simps adj_get_def upt_rec [of 0] upt_rec [of 1] upt_rec [of 2] upt_rec [of 3] upt_rec [of 4])

section \<open>Stage 2: the refinement loop\<close>

lemma cluster_get_update:
  "cluster_get (AList.update k v al) k' = (if k' = k then v else cluster_get al k')"
  by (simp add: cluster_get_def update_conv')

lemma collect_groups_char:
  "distinct (map fst G) \<Longrightarrow>
   distinct (map fst (collect_groups es G)) \<and>
   fst ` set (collect_groups es G) =
     fst ` set G \<union> {g. g \<noteq> [] \<and> (\<exists>(idx, q) \<in> set es. get_group_id q = Some g)} \<and>
   (\<forall>g. cluster_get (collect_groups es G) g =
     cluster_get G g @ (if g = [] then []
        else map fst (filter (\<lambda>(idx, q). get_group_id q = Some g) es)))"
proof (induction es arbitrary: G)
  case Nil
  then show ?case by simp
next
  case (Cons e es)
  obtain idx q where e: "e = (idx, q)" by (cases e)
  show ?case
  proof (cases "\<exists>g. get_group_id q = Some g \<and> g \<noteq> []")
    case True
    then obtain g where g: "get_group_id q = Some g" "g \<noteq> []" by blast
    let ?G = "AList.update g (cluster_get G g @ [idx]) G"
    have step: "collect_groups (e # es) G = collect_groups es ?G" using g by (simp add: e)
    have d: "distinct (map fst ?G)" using Cons.prems by (simp add: distinct_update)
    have keys: "fst ` set ?G = insert g (fst ` set G)"
      using dom_update [of g _ G] by (simp add: dom_map_of_conv_image_fst update_conv')
    from Cons.IH [OF d] show ?thesis
      unfolding step keys using g by (auto simp: e cluster_get_update)
  next
    case False
    then have step: "collect_groups (e # es) G = collect_groups es G"
      by (auto simp: e split: option.splits)
    from Cons.IH [OF Cons.prems] show ?thesis unfolding step using False by (auto simp: e)
  qed
qed

lemma set_members_of:
  "set (members_of Q g) = {i. i < length Q \<and> get_group_id (Q ! i) = Some g}"
  by (auto simp: members_of_def in_set_enumerate_eq image_iff)

lemma distinct_members_of: "distinct (members_of Q g)"
proof -
  have "distinct (map fst (List.enumerate 0 Q))" by simp
  then show ?thesis unfolding members_of_def by (rule distinct_map_filter)
qed

lemma find_large_groups_char:
  "distinct (map fst (find_large_groups Q t)) \<and>
   (\<forall>g I. (g, I) \<in> set (find_large_groups Q t) \<longleftrightarrow>
      g \<noteq> [] \<and> I = members_of Q g \<and> I \<noteq> [] \<and> t < int (length I))"
proof -
  let ?R = "collect_groups (List.enumerate 0 Q) []"
  from collect_groups_char [of "[]" "List.enumerate 0 Q"] have
    d: "distinct (map fst ?R)"
    and keys: "fst ` set ?R = {g. g \<noteq> [] \<and> (\<exists>(idx, q) \<in> set (List.enumerate 0 Q). get_group_id q = Some g)}"
    and get: "\<And>g. cluster_get ?R g = (if g = [] then [] else members_of Q g)"
    by (simp_all add: members_of_def cluster_get_def)
  have mem: "(g, I) \<in> set ?R \<longleftrightarrow> g \<noteq> [] \<and> I = members_of Q g \<and> I \<noteq> []" for g I
  proof
    assume a: "(g, I) \<in> set ?R"
    then have "g \<in> fst ` set ?R" by force
    then have ne: "g \<noteq> []" and ex: "\<exists>(idx, q) \<in> set (List.enumerate 0 Q). get_group_id q = Some g"
      unfolding keys by auto
    have "map_of ?R g = Some I" using a d by simp
    then have "cluster_get ?R g = I" by (simp add: cluster_get_def)
    then have I: "I = members_of Q g" using get [of g] ne by simp
    have "members_of Q g \<noteq> []" using ex unfolding members_of_def
      by (auto simp: filter_empty_conv)
    then show "g \<noteq> [] \<and> I = members_of Q g \<and> I \<noteq> []" using ne I by simp
  next
    assume a: "g \<noteq> [] \<and> I = members_of Q g \<and> I \<noteq> []"
    then have "\<exists>(idx, q) \<in> set (List.enumerate 0 Q). get_group_id q = Some g"
      unfolding members_of_def by (auto simp: filter_empty_conv)
    then have "g \<in> fst ` set ?R" unfolding keys using a by simp
    then obtain I' where I': "(g, I') \<in> set ?R" by force
    then have "map_of ?R g = Some I'" using d by simp
    then have "cluster_get ?R g = I'" by (simp add: cluster_get_def)
    then have "I' = I" using get [of g] a by simp
    then show "(g, I) \<in> set ?R" using I' by simp
  qed
  have "distinct (map fst (find_large_groups Q t))"
    unfolding find_large_groups_def using d by (rule distinct_map_filter)
  moreover have "(g, I) \<in> set (find_large_groups Q t) \<longleftrightarrow>
      g \<noteq> [] \<and> I = members_of Q g \<and> I \<noteq> [] \<and> t < int (length I)" for g I
    unfolding find_large_groups_def using mem [of g I] by auto
  ultimately show ?thesis by blast
qed

lemma length_write_sub_labels: "length (write_sub_labels g sr Q) = length Q"
  by (induction sr arbitrary: Q) auto

lemma length_clear_unassigned: "length (clear_unassigned sr I Q) = length Q"
  by (induction I arbitrary: Q) auto

lemma nth_update_record:
  "i < length Q \<Longrightarrow> Q[idx := f (Q ! idx)] ! i = (if i = idx then f (Q ! i) else Q ! i)"
  by (cases "idx < length Q") (auto simp: nth_list_update)

lemma nth_write_sub_labels:
  "distinct (map fst sr) \<Longrightarrow> i < length Q \<Longrightarrow>
   write_sub_labels g sr Q ! i =
     (case map_of sr i of None \<Rightarrow> Q ! i
      | Some n \<Rightarrow> (Q ! i)\<lparr>similarity_group_id := Label (sub_label g n)\<rparr>)"
proof (induction sr arbitrary: Q)
  case Nil
  then show ?case by simp
next
  case (Cons p sr)
  obtain idx n where p: "p = (idx, n)" by (cases p)
  let ?Q = "Q[idx := (Q ! idx)\<lparr>similarity_group_id := Label (sub_label g n)\<rparr>]"
  have d: "distinct (map fst sr)" and fresh: "idx \<notin> fst ` set sr" using Cons.prems(1) by (auto simp: p)
  have i: "i < length ?Q" using Cons.prems(2) by simp
  have none: "map_of sr idx = None" using fresh by (simp add: map_of_eq_None_iff)
  show ?case
    unfolding p write_sub_labels.simps Cons.IH [OF d i]
    using Cons.prems(2) none by (auto simp: nth_update_record [where f = "\<lambda>q. q\<lparr>similarity_group_id := Label (sub_label g n)\<rparr>"] split: option.splits)
qed

lemma nth_clear_unassigned:
  "i < length Q \<Longrightarrow>
   clear_unassigned sr I Q ! i =
     (if i \<in> set I \<and> map_of sr i = None then (Q ! i)\<lparr>similarity_group_id := Null\<rparr> else Q ! i)"
proof (induction I arbitrary: Q)
  case Nil
  then show ?case by simp
next
  case (Cons idx I)
  let ?Q = "if map_of sr idx = None then Q[idx := (Q ! idx)\<lparr>similarity_group_id := Null\<rparr>] else Q"
  have i: "i < length ?Q" using Cons.prems by simp
  show ?case
    unfolding clear_unassigned.simps Cons.IH [OF i] using Cons.prems
    by (auto simp: nth_update_record [where f = "\<lambda>q. q\<lparr>similarity_group_id := Null\<rparr>"])
qed

lemma nth_split_written:
  assumes "distinct (map fst sr)" and "fst ` set sr \<subseteq> set I" and "i < length Q"
  shows "clear_unassigned sr I (write_sub_labels g sr Q) ! i =
     (if i \<in> set I
      then (Q ! i)\<lparr>similarity_group_id :=
             (case map_of sr i of None \<Rightarrow> Null | Some n \<Rightarrow> Label (sub_label g n))\<rparr>
      else Q ! i)"
proof -
  have i: "i < length (write_sub_labels g sr Q)" using assms(3) by (simp add: length_write_sub_labels)
  have out: "map_of sr i = None" if "i \<notin> set I"
    using that assms(2) by (auto simp: map_of_eq_None_iff)
  show ?thesis
    unfolding nth_clear_unassigned [OF i] nth_write_sub_labels [OF assms(1,3)]
    using out by (auto split: option.splits)
qed

lemma refine_group_step:
  fixes fcluster :: hierarchy
  assumes d: "distinct I" and r: "\<forall>i \<in> set I. i < length Q"
    and enc: "encoder_ok bi_encoder" and cl: "clusterer_ok hdbscan" and h: "hierarchy_ok fcluster"
  shows "\<exists>Q' s' k'. refine_group hdbscan fcluster bi_encoder ce t (g, I) (Q, s, k) = Inr (Q', s', k') \<and>
     length Q' = length Q \<and> s' + k' = s + k + 1 \<and>
     (Q' = Q \<or>
      (\<exists>sr. distinct (map fst sr) \<and> fst ` set sr \<subseteq> set I \<and> shared_labels (map_of sr) \<and>
         (\<forall>i < length Q. Q' ! i =
            (if i \<in> set I
             then (Q ! i)\<lparr>similarity_group_id :=
                    (case map_of sr i of None \<Rightarrow> Null | Some n \<Rightarrow> Label (sub_label g n))\<rparr>
             else Q ! i))))"
proof -
  from try_split_group_result [OF d r enc cl h, of ce t] obtain res where
    run: "try_split_group hdbscan fcluster Q I bi_encoder ce t = Inr res"
    and ok: "\<forall>sr. res = Some sr \<longrightarrow>
        distinct (map fst sr) \<and> fst ` set sr \<subseteq> set I \<and> shared_labels (map_of sr)" by blast
  show ?thesis
  proof (cases "\<exists>sr. res = Some sr \<and> sr \<noteq> [] \<and> 1 < length (remdups (map snd sr))")
    case False
    then have "refine_group hdbscan fcluster bi_encoder ce t (g, I) (Q, s, k) = Inr (Q, s, k + 1)"
      using run by (auto split: option.splits)
    then show ?thesis by simp
  next
    case True
    then obtain sr where sr: "res = Some sr" "sr \<noteq> []" "1 < length (remdups (map snd sr))" by blast
    let ?Q = "clear_unassigned sr I (write_sub_labels g sr Q)"
    have eq: "refine_group hdbscan fcluster bi_encoder ce t (g, I) (Q, s, k) = Inr (?Q, s + 1, k)"
      using run sr by simp
    from ok sr(1) have p: "distinct (map fst sr)" "fst ` set sr \<subseteq> set I" "shared_labels (map_of sr)"
      by simp_all
    have "\<forall>i < length Q. ?Q ! i =
            (if i \<in> set I
             then (Q ! i)\<lparr>similarity_group_id :=
                    (case map_of sr i of None \<Rightarrow> Null | Some n \<Rightarrow> Label (sub_label g n))\<rparr>
             else Q ! i)"
      using nth_split_written [OF p(1,2)] by blast
    then show ?thesis
      unfolding eq using p by (auto simp: length_clear_unassigned length_write_sub_labels)
  qed
qed

lemma refine_groups_frame:
  fixes fcluster :: hierarchy
  assumes "\<forall>(g, I) \<in> set gs. distinct I \<and> (\<forall>i \<in> set I. i < length Q)"
    and enc: "encoder_ok bi_encoder" and cl: "clusterer_ok hdbscan" and h: "hierarchy_ok fcluster"
  shows "\<exists>Q' s' k'. refine_groups hdbscan fcluster bi_encoder ce t gs (Q, s, k) = Inr (Q', s', k') \<and>
     length Q' = length Q \<and> s' + k' = s + k + length gs \<and>
     (\<forall>i < length Q. (i \<notin> \<Union> (set ` snd ` set gs) \<longrightarrow> Q' ! i = Q ! i) \<and>
        same_payload (Q' ! i) (Q ! i))"
  using assms(1)
proof (induction gs arbitrary: Q s k)
  case Nil
  then show ?case by (simp add: same_payload_def)
next
  case (Cons p gs)
  obtain g I where p: "p = (g, I)" by (cases p)
  have d: "distinct I" and r: "\<forall>i \<in> set I. i < length Q" using Cons.prems by (auto simp: p)
  from refine_group_step [OF d r enc cl h, of ce t g s k] obtain Q1 s1 k1 where
    step: "refine_group hdbscan fcluster bi_encoder ce t (g, I) (Q, s, k) = Inr (Q1, s1, k1)"
    and len: "length Q1 = length Q" and cnt: "s1 + k1 = s + k + 1"
    and form: "Q1 = Q \<or>
      (\<exists>sr. \<forall>i < length Q. Q1 ! i =
            (if i \<in> set I
             then (Q ! i)\<lparr>similarity_group_id :=
                    (case map_of sr i of None \<Rightarrow> Null | Some n \<Rightarrow> Label (sub_label g n))\<rparr>
             else Q ! i))" by blast
  have fr1: "Q1 ! i = Q ! i" if "i < length Q" "i \<notin> set I" for i
    using form that by auto
  have sp1: "same_payload (Q1 ! i) (Q ! i)" if "i < length Q" for i
  proof -
    from form have "Q1 ! i = Q ! i \<or> (\<exists>v. Q1 ! i = (Q ! i)\<lparr>similarity_group_id := v\<rparr>)"
      using that by (cases "i \<in> set I") auto
    then show ?thesis by (auto simp: same_payload_def)
  qed
  have rest: "\<forall>(g, I) \<in> set gs. distinct I \<and> (\<forall>i \<in> set I. i < length Q1)"
    using Cons.prems unfolding len by simp
  from Cons.IH [OF rest, of s1 k1] obtain Q' s' k' where
    run: "refine_groups hdbscan fcluster bi_encoder ce t gs (Q1, s1, k1) = Inr (Q', s', k')"
    and len': "length Q' = length Q1" and cnt': "s' + k' = s1 + k1 + length gs"
    and fr': "\<forall>i < length Q1. (i \<notin> \<Union> (set ` snd ` set gs) \<longrightarrow> Q' ! i = Q1 ! i) \<and>
        same_payload (Q' ! i) (Q1 ! i)" by blast
  have eq: "refine_groups hdbscan fcluster bi_encoder ce t (p # gs) (Q, s, k) = Inr (Q', s', k')"
    using step run by (simp add: p)
  have "(i \<notin> \<Union> (set ` snd ` set (p # gs)) \<longrightarrow> Q' ! i = Q ! i) \<and> same_payload (Q' ! i) (Q ! i)"
    if i: "i < length Q" for i
  proof -
    have a: "same_payload (Q' ! i) (Q1 ! i)" and b: "i \<notin> \<Union> (set ` snd ` set gs) \<longrightarrow> Q' ! i = Q1 ! i"
      using fr' i len by auto
    have "same_payload (Q' ! i) (Q ! i)" using a sp1 [OF i] by (simp add: same_payload_def)
    moreover have "Q' ! i = Q ! i" if "i \<notin> \<Union> (set ` snd ` set (p # gs))"
      using that b fr1 [OF i] by (simp add: p)
    ultimately show ?thesis by blast
  qed
  then show ?case unfolding eq using len len' cnt cnt' by simp
qed

lemma large_groups_ranges:
  "\<forall>(g, I) \<in> set (find_large_groups Q t). distinct I \<and> (\<forall>i \<in> set I. i < length Q)"
  using find_large_groups_char [of Q t] by (auto simp: distinct_members_of set_members_of)

lemma large_groups_members:
  assumes "i \<in> \<Union> (set ` snd ` set (find_large_groups Q t))"
  shows "\<exists>g. g \<noteq> [] \<and> i < length Q \<and> get_group_id (Q ! i) = Some g \<and> t < int (length (members_of Q g))"
proof -
  from assms obtain g I where m: "(g, I) \<in> set (find_large_groups Q t)" and i: "i \<in> set I" by force
  from m find_large_groups_char [of Q t] have "g \<noteq> []" "I = members_of Q g" "t < int (length I)"
    by blast+
  then show ?thesis using i by (auto simp: set_members_of)
qed

lemma run_stage2_skip:
  "find_large_groups Q rt = [] \<Longrightarrow>
   run_stage2 hdbscan fcluster Q bi_encoder ce rt rct =
     Inr \<lparr>questions_after = Q,
          stdout = [[CHR 0x0A] @ ''No groups larger than '' @ str_int rt
                      @ '' items. Skipping refinement.''],
          returned = None\<rparr>"
  by (simp add: run_stage2_def)

lemma run_stage2_refine:
  assumes "find_large_groups Q rt \<noteq> []"
    and "refine_groups hdbscan fcluster bi_encoder ce rct (find_large_groups Q rt) (Q, 0, 0)
           = Inr (Q', s, k)"
  shows "run_stage2 hdbscan fcluster Q bi_encoder ce rt rct =
     Inr \<lparr>questions_after = Q',
          stdout =
            [[CHR 0x0A] @ replicate 60 CHR ''='',
             ''STAGE 2: Refining Large Groups'',
             replicate 60 CHR ''='',
             ''Found '' @ str_nat (length (find_large_groups Q rt)) @ '' groups to refine (>''
               @ str_int rt @ '' items)'',
             [CHR 0x0A] @ ''Refinement complete: '' @ str_nat s
               @ '' split, '' @ str_nat k @ '' kept as-is''],
          returned = None\<rparr>"
  unfolding run_stage2_def Let_def if_not_P [OF assms(1)] assms(2) by simp

lemma ex_large_groups:
  "find_large_groups
     [\<lparr>success = True, data = Some ''a'', similarity_group_id = Label ''g''\<rparr>,
      \<lparr>success = True, data = Some ''b'', similarity_group_id = Label ''g''\<rparr>,
      \<lparr>success = True, data = Some ''c'', similarity_group_id = Label ''g''\<rparr>,
      \<lparr>success = True, data = Some ''d'', similarity_group_id = Label ''h''\<rparr>,
      \<lparr>success = True, data = Some ''e'', similarity_group_id = Label ''h''\<rparr>] 2
   = [(''g'', [0, 1, 2])]"
  by (simp add: find_large_groups_def enumerate_eq_zip get_group_id_def cluster_get_def
      upt_rec [of 0] upt_rec [of 1] upt_rec [of 2] upt_rec [of 3] upt_rec [of 4] upt_rec [of 5])

lemma ex_no_large_groups:
  "find_large_groups
     [\<lparr>success = True, data = Some ''a'', similarity_group_id = Label ''g''\<rparr>,
      \<lparr>success = True, data = Some ''b'', similarity_group_id = Label ''g''\<rparr>,
      \<lparr>success = True, data = Some ''c'', similarity_group_id = Label ''g''\<rparr>,
      \<lparr>success = True, data = Some ''d'', similarity_group_id = Label ''h''\<rparr>,
      \<lparr>success = True, data = Some ''e'', similarity_group_id = Label ''h''\<rparr>] 5
   = []"
  by (simp add: find_large_groups_def enumerate_eq_zip get_group_id_def cluster_get_def
      upt_rec [of 0] upt_rec [of 1] upt_rec [of 2] upt_rec [of 3] upt_rec [of 4] upt_rec [of 5])

lemma ex_members:
  "members_of
     [\<lparr>success = True, data = Some ''a'', similarity_group_id = Label ''g''\<rparr>,
      \<lparr>success = True, data = Some ''b'', similarity_group_id = Label ''g''\<rparr>,
      \<lparr>success = True, data = Some ''c'', similarity_group_id = Label ''g''\<rparr>,
      \<lparr>success = True, data = Some ''d'', similarity_group_id = Label ''h''\<rparr>,
      \<lparr>success = True, data = Some ''e'', similarity_group_id = Label ''h''\<rparr>] ''h''
   = [3, 4]"
  by (simp add: members_of_def enumerate_eq_zip get_group_id_def
      upt_rec [of 0] upt_rec [of 1] upt_rec [of 2] upt_rec [of 3] upt_rec [of 4] upt_rec [of 5])

lemma ex_refine:
  "refine_groups hdbscan fcluster bi_encoder ce t [(''g'', [0, 1, 2])] (Q, 0, 0) = Inr (Q, 0, 1)"
  by (simp add: try_split_group_short)

section \<open>The claims\<close>

text \<open>
  C1. For a candidate cluster of at least two members (all in range of the texts, and
  standing for distinct records) and any threshold, the Stage 1 verification step
  succeeds, and with the graph that has an edge between members \<open>i\<close> and \<open>j\<close> exactly when
  their pairwise score is at least the threshold: a member with no edge (a component of
  size 1) gets no label written; every other member gets a fresh label \<open>sim_group_k\<close>; and
  two such members get the same label exactly when they are connected in the graph. So the
  groups written are exactly the connected components of size at least 2.
\<close>

theorem verification_groups_are_components:
  fixes ce :: cross_encoder
  assumes "2 \<le> length members"
    and "\<forall>i \<in> set members. i < length valid_texts"
    and "inj_on (\<lambda>node. original_indices ! (members ! node)) {..<length members}"
  shows "\<exists>cluster_id' verified'.
      verify_cluster ce threshold valid_texts original_indices members (cluster_id, verified)
        = Inr (cluster_id', verified') \<and>
      (\<forall>i < length members.
         (verification_edges ce threshold (map ((!) valid_texts) members) `` {i} = {} \<longrightarrow>
            map_of verified' (original_indices ! (members ! i))
              = map_of verified (original_indices ! (members ! i))) \<and>
         (verification_edges ce threshold (map ((!) valid_texts) members) `` {i} \<noteq> {} \<longrightarrow>
            (\<exists>k. cluster_id < k \<and> k \<le> cluster_id' \<and>
               map_of verified' (original_indices ! (members ! i)) = Some (sim_group k))) \<and>
         (\<forall>j < length members.
            verification_edges ce threshold (map ((!) valid_texts) members) `` {i} \<noteq> {} \<and>
            verification_edges ce threshold (map ((!) valid_texts) members) `` {j} \<noteq> {} \<longrightarrow>
              (map_of verified' (original_indices ! (members ! i))
                 = map_of verified' (original_indices ! (members ! j)))
              = ((i, j) \<in> (verification_edges ce threshold (map ((!) valid_texts) members))\<^sup>*)))"
proof -
  from verify_cluster_labelled [OF assms, of ce threshold cluster_id verified]
  show ?thesis unfolding labelled_ok_def by blast
qed

text \<open>
  The scenario of the specification: A-B and B-C score above the threshold, A-C below it;
  A and C end in the same group, connected through B.
\<close>

theorem verification_groups_are_components_witness:
  "\<exists>cluster_id' verified'.
     verify_cluster (\<lambda>a b. if a = ''A'' \<and> b = ''C'' then 0.2 else 0.9) 0.7
       [''A'', ''B'', ''C''] [0, 1, 2] [0, 1, 2] (0, []) = Inr (cluster_id', verified') \<and>
     map_of verified' 0 = map_of verified' 2 \<and>
     (\<exists>k. 0 < k \<and> k \<le> cluster_id' \<and> map_of verified' 0 = Some (sim_group k))"
proof -
  let ?ce = "\<lambda>a b :: string. if a = ''A'' \<and> b = ''C'' then 0.2 else (0.9 :: real)"
  let ?E = "verification_edges ?ce 0.7 (map ((!) [''A'', ''B'', ''C'']) [0, 1, 2])"
  have h1: "2 \<le> length [0, 1, 2 :: nat]" by simp
  have h2: "\<forall>i \<in> set [0, 1, 2 :: nat]. i < length [''A'', ''B'', ''C'']" by simp
  have h3: "inj_on (\<lambda>node. [0, 1, 2 :: nat] ! ([0, 1, 2] ! node)) {..<length [0, 1, 2 :: nat]}"
    by (auto simp: inj_on_def less_Suc_eq numeral_3_eq_3)
  note inst = verification_groups_are_components [OF h1 h2 h3,
      where ce = "?ce" and threshold = "0.7" and cluster_id = 0 and verified = "[]"]
  have e01: "(0, 1) \<in> ?E" and e12: "(1, 2) \<in> ?E" and e21: "(2, 1) \<in> ?E"
    by (simp_all add: verification_edges_def pair_score_def)
  have conn: "(0, 2) \<in> ?E\<^sup>*"
    using e01 e12 by (rule rtrancl_into_rtrancl [OF r_into_rtrancl])
  have n0: "?E `` {0} \<noteq> {}" using e01 by (rule_tac notI) (drule equals0D [of _ 1], simp add: Image_def)
  have n2: "?E `` {2} \<noteq> {}" using e21 by (rule_tac notI) (drule equals0D [of _ 1], simp add: Image_def)
  have i0: "(0::nat) < length [0, 1, 2 :: nat]" and i2: "(2::nat) < length [0, 1, 2 :: nat]"
    by simp_all
  from inst obtain c v where
    run: "verify_cluster ?ce 0.7 [''A'', ''B'', ''C''] [0, 1, 2] [0, 1, 2] (0, []) = Inr (c, v)"
    and all: "\<forall>i < length [0, 1, 2 :: nat].
         (?E `` {i} = {} \<longrightarrow> map_of v ([0, 1, 2] ! ([0, 1, 2] ! i)) = map_of ([] :: (nat \<times> string) list) ([0, 1, 2 :: nat] ! ([0, 1, 2] ! i))) \<and>
         (?E `` {i} \<noteq> {} \<longrightarrow>
            (\<exists>k. 0 < k \<and> k \<le> c \<and> map_of v ([0, 1, 2] ! ([0, 1, 2] ! i)) = Some (sim_group k))) \<and>
         (\<forall>j < length [0, 1, 2 :: nat]. ?E `` {i} \<noteq> {} \<and> ?E `` {j} \<noteq> {} \<longrightarrow>
              (map_of v ([0, 1, 2] ! ([0, 1, 2] ! i)) = map_of v ([0, 1, 2] ! ([0, 1, 2] ! j)))
              = ((i, j) \<in> ?E\<^sup>*))"
    by (elim exE conjE) (rule that)
  note P0 = all [THEN spec, of 0, THEN mp, OF i0]
  have a: "\<exists>k. 0 < k \<and> k \<le> c \<and> map_of v 0 = Some (sim_group k)"
    using P0 [THEN conjunct2, THEN conjunct1, THEN mp, OF n0] by simp
  have "(map_of v ([0, 1, 2] ! ([0, 1, 2] ! 0)) = map_of v ([0, 1, 2] ! ([0, 1, 2] ! 2)))
      = ((0, 2) \<in> ?E\<^sup>*)"
    using P0 [THEN conjunct2, THEN conjunct2, THEN spec, of 2, THEN mp, OF i2, THEN mp,
        OF conjI [OF n0 n2]] .
  then have b: "map_of v 0 = map_of v 2" using conn by simp
  show ?thesis
    by (rule exI [of _ c], rule exI [of _ v]) (intro conjI run a b)
qed

text \<open>
  C6. For a fixed candidate cluster and fixed scores, take two thresholds
  \<open>lower \<le> higher\<close> and run the verification step with each, the members of the cluster
  carrying no label before. Whenever two members are in the same group under the higher
  threshold they are in the same group under the lower one: every group of the higher
  threshold is a subset of a group of the lower threshold.
\<close>

theorem raising_threshold_refines_groups:
  fixes ce :: cross_encoder
  assumes "2 \<le> length members"
    and "\<forall>i \<in> set members. i < length valid_texts"
    and "inj_on (\<lambda>node. original_indices ! (members ! node)) {..<length members}"
    and "lower \<le> higher"
  shows "\<exists>c1 v1 c2 v2.
      verify_cluster ce lower valid_texts original_indices members (cluster_id, []) = Inr (c1, v1) \<and>
      verify_cluster ce higher valid_texts original_indices members (cluster_id, []) = Inr (c2, v2) \<and>
      (\<forall>i < length members. \<forall>j < length members.
         map_of v2 (original_indices ! (members ! i)) \<noteq> None \<and>
         map_of v2 (original_indices ! (members ! i)) = map_of v2 (original_indices ! (members ! j)) \<longrightarrow>
         map_of v1 (original_indices ! (members ! i)) \<noteq> None \<and>
         map_of v1 (original_indices ! (members ! i)) = map_of v1 (original_indices ! (members ! j)))"
proof -
  let ?key = "\<lambda>node. original_indices ! (members ! node)"
  let ?mt = "map ((!) valid_texts) members"
  from verify_cluster_labelled [OF assms(1-3), of ce lower cluster_id "[]"] obtain c1 v1 where
    r1: "verify_cluster ce lower valid_texts original_indices members (cluster_id, []) = Inr (c1, v1)"
    and ok1: "labelled_ok (verification_edges ce lower ?mt) (length members) ?key sim_group
        cluster_id (map_of []) c1 (map_of v1)" by blast
  from verify_cluster_labelled [OF assms(1-3), of ce higher cluster_id "[]"] obtain c2 v2 where
    r2: "verify_cluster ce higher valid_texts original_indices members (cluster_id, []) = Inr (c2, v2)"
    and ok2: "labelled_ok (verification_edges ce higher ?mt) (length members) ?key sim_group
        cluster_id (map_of []) c2 (map_of v2)" by blast
  have e: "map_of ([] :: (nat \<times> string) list) = (\<lambda>k. None)" by auto
  note m = labelled_ok_mono [OF ok1 [unfolded e] ok2 [unfolded e] verification_edges_mono [OF assms(4)]]
  have "\<forall>i < length members. \<forall>j < length members.
         map_of v2 (?key i) \<noteq> None \<and> map_of v2 (?key i) = map_of v2 (?key j) \<longrightarrow>
         map_of v1 (?key i) \<noteq> None \<and> map_of v1 (?key i) = map_of v1 (?key j)"
    using m by blast
  then show ?thesis using r1 r2 by blast
qed

text \<open>The thresholds 0.5 and 0.7 on a cluster of three members.\<close>

theorem raising_threshold_refines_groups_witness:
  "(0.5 :: real) \<le> 0.7 \<and>
   (\<exists>c1 v1 c2 v2.
      verify_cluster (\<lambda>a b. if a = ''A'' \<and> b = ''C'' then 0.6 else 0.9) 0.5
        [''A'', ''B'', ''C''] [0, 1, 2] [0, 1, 2] (0, []) = Inr (c1, v1) \<and>
      verify_cluster (\<lambda>a b. if a = ''A'' \<and> b = ''C'' then 0.6 else 0.9) 0.7
        [''A'', ''B'', ''C''] [0, 1, 2] [0, 1, 2] (0, []) = Inr (c2, v2) \<and>
      (\<forall>i < length [0, 1, 2 :: nat]. \<forall>j < length [0, 1, 2 :: nat].
         map_of v2 ([0, 1, 2 :: nat] ! ([0, 1, 2] ! i)) \<noteq> None \<and>
         map_of v2 ([0, 1, 2 :: nat] ! ([0, 1, 2] ! i)) = map_of v2 ([0, 1, 2 :: nat] ! ([0, 1, 2] ! j)) \<longrightarrow>
         map_of v1 ([0, 1, 2 :: nat] ! ([0, 1, 2] ! i)) \<noteq> None \<and>
         map_of v1 ([0, 1, 2 :: nat] ! ([0, 1, 2] ! i)) = map_of v1 ([0, 1, 2 :: nat] ! ([0, 1, 2] ! j))))"
proof -
  let ?ce = "\<lambda>a b :: string. if a = ''A'' \<and> b = ''C'' then 0.6 else (0.9 :: real)"
  have h1: "2 \<le> length [0, 1, 2 :: nat]" by simp
  have h2: "\<forall>i \<in> set [0, 1, 2 :: nat]. i < length [''A'', ''B'', ''C'']" by simp
  have h3: "inj_on (\<lambda>node. [0, 1, 2 :: nat] ! ([0, 1, 2] ! node)) {..<length [0, 1, 2 :: nat]}"
    by (auto simp: inj_on_def less_Suc_eq numeral_3_eq_3)
  have h4: "(0.5 :: real) \<le> 0.7" by simp
  note inst = raising_threshold_refines_groups [OF h1 h2 h3 h4,
      where ce = "?ce" and cluster_id = 0]
  show ?thesis by (rule conjI [OF h4 inst])
qed

text \<open>
  C7. In the bounded pass of Stage 2 over a fine-grained cluster of at least two members,
  the pairs scored are exactly the pairs of positions \<open>(i, j)\<close> with
  \<open>i < j \<le> i + 50\<close>; the outcome does not depend on the score of any other pair; and
  the sub-groups written are exactly the connected components of size at least 2 of the
  graph of those pairs that reach the threshold: an isolated member is not written, every
  other member gets a fresh sub-group number, and two such members get the same number
  exactly when they are connected.
\<close>

theorem bounded_pass_pairs_and_components:
  fixes ce :: cross_encoder
  assumes "2 \<le> length members"
    and "\<forall>i \<in> set members. i < length texts"
    and "inj_on (\<lambda>node. indices ! (members ! node)) {..<length members}"
  shows "set (pair_indices_bounded (length members))
           = {(i, j). i < j \<and> j < length members \<and> j \<le> i + 50} \<and>
    (\<forall>ce'. (\<forall>i j. i < j \<and> j < length members \<and> j \<le> i + 50 \<longrightarrow>
              ce' (texts ! (members ! i)) (texts ! (members ! j))
                = ce (texts ! (members ! i)) (texts ! (members ! j))) \<longrightarrow>
        verify_sub_cluster ce' threshold texts indices members (counter, verified)
          = verify_sub_cluster ce threshold texts indices members (counter, verified)) \<and>
    (\<exists>counter' verified'.
      verify_sub_cluster ce threshold texts indices members (counter, verified)
        = Inr (counter', verified') \<and>
      (\<forall>i < length members.
         (bounded_edges ce threshold (map ((!) texts) members) `` {i} = {} \<longrightarrow>
            map_of verified' (indices ! (members ! i)) = map_of verified (indices ! (members ! i))) \<and>
         (bounded_edges ce threshold (map ((!) texts) members) `` {i} \<noteq> {} \<longrightarrow>
            (\<exists>k. counter < k \<and> k \<le> counter' \<and>
               map_of verified' (indices ! (members ! i)) = Some k)) \<and>
         (\<forall>j < length members.
            bounded_edges ce threshold (map ((!) texts) members) `` {i} \<noteq> {} \<and>
            bounded_edges ce threshold (map ((!) texts) members) `` {j} \<noteq> {} \<longrightarrow>
              (map_of verified' (indices ! (members ! i)) = map_of verified' (indices ! (members ! j)))
              = ((i, j) \<in> (bounded_edges ce threshold (map ((!) texts) members))\<^sup>*))))"
proof (intro conjI)
  show "set (pair_indices_bounded (length members))
           = {(i, j). i < j \<and> j < length members \<and> j \<le> i + 50}"
    by (rule set_pair_indices_bounded)
  show "\<forall>ce'. (\<forall>i j. i < j \<and> j < length members \<and> j \<le> i + 50 \<longrightarrow>
              ce' (texts ! (members ! i)) (texts ! (members ! j))
                = ce (texts ! (members ! i)) (texts ! (members ! j))) \<longrightarrow>
        verify_sub_cluster ce' threshold texts indices members (counter, verified)
          = verify_sub_cluster ce threshold texts indices members (counter, verified)"
    using verify_sub_cluster_cong by blast
  from verify_sub_cluster_labelled [OF assms, of ce threshold counter verified]
  show "\<exists>counter' verified'.
      verify_sub_cluster ce threshold texts indices members (counter, verified)
        = Inr (counter', verified') \<and>
      (\<forall>i < length members.
         (bounded_edges ce threshold (map ((!) texts) members) `` {i} = {} \<longrightarrow>
            map_of verified' (indices ! (members ! i)) = map_of verified (indices ! (members ! i))) \<and>
         (bounded_edges ce threshold (map ((!) texts) members) `` {i} \<noteq> {} \<longrightarrow>
            (\<exists>k. counter < k \<and> k \<le> counter' \<and>
               map_of verified' (indices ! (members ! i)) = Some k)) \<and>
         (\<forall>j < length members.
            bounded_edges ce threshold (map ((!) texts) members) `` {i} \<noteq> {} \<and>
            bounded_edges ce threshold (map ((!) texts) members) `` {j} \<noteq> {} \<longrightarrow>
              (map_of verified' (indices ! (members ! i)) = map_of verified' (indices ! (members ! j)))
              = ((i, j) \<in> (bounded_edges ce threshold (map ((!) texts) members))\<^sup>*)))"
    unfolding labelled_ok_def by blast
qed

text \<open>
  A cluster of three members holding the records 4, 5 and 6: a scorer that differs only on
  texts outside the cluster gives the same outcome, and records 4 and 6 end in one sub-group.
\<close>

theorem bounded_pass_pairs_and_components_witness:
  "set (pair_indices_bounded (length [0, 1, 2 :: nat]))
     = {(i, j). i < j \<and> j < length [0, 1, 2 :: nat] \<and> j \<le> i + 50} \<and>
   verify_sub_cluster (\<lambda>a b. if a = ''Z'' then 0 else if a = ''A'' \<and> b = ''C'' then 0.2 else 0.9)
       0.85 [''A'', ''B'', ''C''] [4, 5, 6] [0, 1, 2] (0, [])
     = verify_sub_cluster (\<lambda>a b. if a = ''A'' \<and> b = ''C'' then 0.2 else 0.9)
       0.85 [''A'', ''B'', ''C''] [4, 5, 6] [0, 1, 2] (0, []) \<and>
   (\<exists>counter' verified'.
      verify_sub_cluster (\<lambda>a b. if a = ''A'' \<and> b = ''C'' then 0.2 else 0.9)
        0.85 [''A'', ''B'', ''C''] [4, 5, 6] [0, 1, 2] (0, []) = Inr (counter', verified') \<and>
      map_of verified' 4 = map_of verified' 6 \<and>
      (\<exists>k. 0 < k \<and> k \<le> counter' \<and> map_of verified' 4 = Some k))"
proof -
  let ?ce = "\<lambda>a b :: string. if a = ''A'' \<and> b = ''C'' then 0.2 else (0.9 :: real)"
  let ?ce' = "\<lambda>a b :: string. if a = ''Z'' then 0 else if a = ''A'' \<and> b = ''C'' then 0.2 else (0.9 :: real)"
  let ?E = "bounded_edges ?ce 0.85 (map ((!) [''A'', ''B'', ''C'']) [0, 1, 2])"
  have h1: "2 \<le> length [0, 1, 2 :: nat]" by simp
  have h2: "\<forall>i \<in> set [0, 1, 2 :: nat]. i < length [''A'', ''B'', ''C'']" by simp
  have h3: "inj_on (\<lambda>node. [4, 5, 6 :: nat] ! ([0, 1, 2] ! node)) {..<length [0, 1, 2 :: nat]}"
    by (auto simp: inj_on_def less_Suc_eq numeral_3_eq_3)
  note inst = bounded_pass_pairs_and_components [OF h1 h2 h3,
      where ce = "?ce" and threshold = "0.85" and counter = 0
        and verified = "[] :: (nat \<times> nat) list"]
  have agree: "\<forall>i j. i < j \<and> j < length [0, 1, 2 :: nat] \<and> j \<le> i + 50 \<longrightarrow>
      ?ce' ([''A'', ''B'', ''C''] ! ([0, 1, 2] ! i)) ([''A'', ''B'', ''C''] ! ([0, 1, 2] ! j))
        = ?ce ([''A'', ''B'', ''C''] ! ([0, 1, 2] ! i)) ([''A'', ''B'', ''C''] ! ([0, 1, 2] ! j))"
    by (auto simp: less_Suc_eq numeral_3_eq_3)
  have e01: "(0, 1) \<in> ?E" and e12: "(1, 2) \<in> ?E" and e21: "(2, 1) \<in> ?E"
    by (simp_all add: bounded_edges_def pair_score_def)
  have conn: "(0, 2) \<in> ?E\<^sup>*"
    using e01 e12 by (rule rtrancl_into_rtrancl [OF r_into_rtrancl])
  have n0: "?E `` {0} \<noteq> {}" using e01 by (rule_tac notI) (drule equals0D [of _ 1], simp add: Image_def)
  have n2: "?E `` {2} \<noteq> {}" using e21 by (rule_tac notI) (drule equals0D [of _ 1], simp add: Image_def)
  have i0: "(0::nat) < length [0, 1, 2 :: nat]" and i2: "(2::nat) < length [0, 1, 2 :: nat]"
    by simp_all
  note pairs = inst [THEN conjunct1]
  note same = inst [THEN conjunct2, THEN conjunct1, THEN spec, of ?ce', THEN mp, OF agree]
  from inst [THEN conjunct2, THEN conjunct2] obtain c v where
    run: "verify_sub_cluster ?ce 0.85 [''A'', ''B'', ''C''] [4, 5, 6] [0, 1, 2] (0, []) = Inr (c, v)"
    and all: "\<forall>i < length [0, 1, 2 :: nat].
         (?E `` {i} = {} \<longrightarrow> map_of v ([4, 5, 6] ! ([0, 1, 2] ! i))
            = map_of ([] :: (nat \<times> nat) list) ([4, 5, 6 :: nat] ! ([0, 1, 2] ! i))) \<and>
         (?E `` {i} \<noteq> {} \<longrightarrow>
            (\<exists>k. 0 < k \<and> k \<le> c \<and> map_of v ([4, 5, 6] ! ([0, 1, 2] ! i)) = Some k)) \<and>
         (\<forall>j < length [0, 1, 2 :: nat]. ?E `` {i} \<noteq> {} \<and> ?E `` {j} \<noteq> {} \<longrightarrow>
              (map_of v ([4, 5, 6] ! ([0, 1, 2] ! i)) = map_of v ([4, 5, 6] ! ([0, 1, 2] ! j)))
              = ((i, j) \<in> ?E\<^sup>*))"
    by (elim exE conjE) (rule that)
  note P0 = all [THEN spec, of 0, THEN mp, OF i0]
  have a: "\<exists>k. 0 < k \<and> k \<le> c \<and> map_of v 4 = Some k"
    using P0 [THEN conjunct2, THEN conjunct1, THEN mp, OF n0] by simp
  have "(map_of v ([4, 5, 6] ! ([0, 1, 2] ! 0)) = map_of v ([4, 5, 6] ! ([0, 1, 2] ! 2)))
      = ((0, 2) \<in> ?E\<^sup>*)"
    using P0 [THEN conjunct2, THEN conjunct2, THEN spec, of 2, THEN mp, OF i2, THEN mp,
        OF conjI [OF n0 n2]] .
  then have b: "map_of v 4 = map_of v 6" using conn by simp
  have ex: "\<exists>counter' verified'.
      verify_sub_cluster ?ce 0.85 [''A'', ''B'', ''C''] [4, 5, 6] [0, 1, 2] (0, []) = Inr (counter', verified') \<and>
      map_of verified' 4 = map_of verified' 6 \<and>
      (\<exists>k. 0 < k \<and> k \<le> counter' \<and> map_of verified' 4 = Some k)"
    by (rule exI [of _ c], rule exI [of _ v]) (intro conjI run a b)
  show ?thesis by (intro conjI pairs same ex)
qed

text \<open>
  C8. When fewer than two records of the collection are eligible (a true success flag and
  a data payload) with a non-empty text, \<open>find_similarity_groups\<close> returns the empty
  assignment and Stage 1 returns normally, every record carrying no group: no error is
  raised. (The code filters on \<open>text.strip()\<close>; a text it keeps is non-empty, so the
  hypothesis covers it.)
\<close>

theorem stage1_insufficient_data:
  assumes "length (filter (\<lambda>q. eligible q \<and> get_question_text q \<noteq> []) questions) < 2"
  shows "find_similarity_groups hdbscan (filter (\<lambda>(idx, q). eligible q) (List.enumerate 0 questions))
           bi_encoder cross_encoder min_cluster_size threshold use_cross_encoder = Inr [] \<and>
         run_stage1 hdbscan questions bi_encoder cross_encoder min_cluster_size threshold
           use_cross_encoder = Inr (map (\<lambda>q. q\<lparr>similarity_group_id := Null\<rparr>) questions)"
proof -
  let ?qwi = "filter (\<lambda>(idx, q). eligible q) (List.enumerate 0 questions)"
  have "length (filter (\<lambda>(idx, q). get_question_text q \<noteq> []) ?qwi)
      = length (filter (\<lambda>q. eligible q \<and> get_question_text q \<noteq> []) questions)"
    unfolding filter_filter_enumerate by (rule filter_enumerate_length)
  then have "length (filter (\<lambda>(idx, q). get_question_text q \<noteq> []) ?qwi) < 2"
    using assms by simp
  then have f: "find_similarity_groups hdbscan ?qwi bi_encoder cross_encoder min_cluster_size
      threshold use_cross_encoder = Inr []" by (rule find_similarity_groups_few)
  then show ?thesis unfolding run_stage1_def Let_def by (simp add: apply_assignments_empty)
qed

text \<open>One eligible record with text, one failed record and one record with an empty text.\<close>

theorem stage1_insufficient_data_witness:
  "length (filter (\<lambda>q. eligible q \<and> get_question_text q \<noteq> [])
      [\<lparr>success = True, data = Some ''What is a cell?'', similarity_group_id = Label ''old''\<rparr>,
       \<lparr>success = False, data = Some ''Failed'', similarity_group_id = Missing\<rparr>,
       \<lparr>success = True, data = Some [], similarity_group_id = Missing\<rparr>]) < 2 \<and>
   run_stage1 (\<lambda>mcs ms sel es. map (\<lambda>e. 0) es)
      [\<lparr>success = True, data = Some ''What is a cell?'', similarity_group_id = Label ''old''\<rparr>,
       \<lparr>success = False, data = Some ''Failed'', similarity_group_id = Missing\<rparr>,
       \<lparr>success = True, data = Some [], similarity_group_id = Missing\<rparr>]
      (map length) (Some (\<lambda>a b. 1)) 2 0.7 True
    = Inr [\<lparr>success = True, data = Some ''What is a cell?'', similarity_group_id = Null\<rparr>,
           \<lparr>success = False, data = Some ''Failed'', similarity_group_id = Null\<rparr>,
           \<lparr>success = True, data = Some [], similarity_group_id = Null\<rparr>]"
proof -
  let ?qs = "[\<lparr>success = True, data = Some ''What is a cell?'', similarity_group_id = Label ''old''\<rparr>,
       \<lparr>success = False, data = Some ''Failed'', similarity_group_id = Missing\<rparr>,
       \<lparr>success = True, data = Some [], similarity_group_id = Missing\<rparr>]"
  have h: "length (filter (\<lambda>q. eligible q \<and> get_question_text q \<noteq> []) ?qs) < 2"
    by (simp add: eligible_def get_question_text_def)
  from stage1_insufficient_data [OF h, of "\<lambda>mcs ms sel es. map (\<lambda>e. 0) es" "map length"
      "Some (\<lambda>a b. 1)" 2 "0.7" True]
  have "run_stage1 (\<lambda>mcs ms sel es. map (\<lambda>e. 0) es) ?qs (map length) (Some (\<lambda>a b. 1)) 2 0.7 True
      = Inr (map (\<lambda>q. q\<lparr>similarity_group_id := Null\<rparr>) ?qs)" by (rule conjunct2)
  then show ?thesis using h by simp
qed

text \<open>
  C5. When the embedding model and HDBSCAN return one result for each input, Stage 1
  completes, and afterwards every record carries exactly the label that this run's
  assignment gives it, and no label (\<open>None\<close>) when the run placed it in no group; the
  rest of the record is unchanged. The outcome does not depend on the labels carried
  before: any collection that differs only in its labels gives the same result. (A record
  holds a single label field, so it never carries more than one label.)
\<close>

theorem stage1_recomputes_all_labels:
  assumes "encoder_ok bi_encoder" and "clusterer_ok hdbscan"
  shows "\<exists>m qs'.
      find_similarity_groups hdbscan (filter (\<lambda>(idx, q). eligible q) (List.enumerate 0 questions))
        bi_encoder cross_encoder min_cluster_size threshold use_cross_encoder = Inr m \<and>
      run_stage1 hdbscan questions bi_encoder cross_encoder min_cluster_size threshold
        use_cross_encoder = Inr qs' \<and>
      length qs' = length questions \<and>
      (\<forall>i < length questions.
         similarity_group_id (qs' ! i) = (case map_of m i of None \<Rightarrow> Null | Some l \<Rightarrow> Label l) \<and>
         same_payload (qs' ! i) (questions ! i)) \<and>
      (\<forall>other. list_all2 same_payload other questions \<longrightarrow>
         run_stage1 hdbscan other bi_encoder cross_encoder min_cluster_size threshold
           use_cross_encoder = Inr qs')"
proof -
  from run_stage1_total [OF assms, of questions cross_encoder min_cluster_size threshold use_cross_encoder]
  obtain m where
    m: "find_similarity_groups hdbscan (filter (\<lambda>(idx, q). eligible q) (List.enumerate 0 questions))
        bi_encoder cross_encoder min_cluster_size threshold use_cross_encoder = Inr m"
    and run: "run_stage1 hdbscan questions bi_encoder cross_encoder min_cluster_size threshold
        use_cross_encoder = Inr (apply_assignments m questions)" by blast
  let ?qs = "apply_assignments m questions"
  have len: "length ?qs = length questions" by (rule length_apply_assignments)
  have each: "\<forall>i < length questions.
         similarity_group_id (?qs ! i) = (case map_of m i of None \<Rightarrow> Null | Some l \<Rightarrow> Label l) \<and>
         same_payload (?qs ! i) (questions ! i)"
    by (simp add: nth_apply_assignments same_payload_def)
  have indep: "\<forall>other. list_all2 same_payload other questions \<longrightarrow>
         run_stage1 hdbscan other bi_encoder cross_encoder min_cluster_size threshold
           use_cross_encoder = Inr ?qs"
    using run_stage1_cong [of _ questions hdbscan bi_encoder cross_encoder min_cluster_size threshold
        use_cross_encoder] run by simp
  show ?thesis using m run len each indep by blast
qed

text \<open>Two collections that differ only in the labels carried before the stage.\<close>

theorem stage1_recomputes_all_labels_witness:
  "encoder_ok (map length :: string list \<Rightarrow> nat list) \<and>
   clusterer_ok (\<lambda>mcs ms sel (es :: nat list). map (\<lambda>e. 0 :: int) es) \<and>
   list_all2 same_payload
     [\<lparr>success = True, data = Some ''A'', similarity_group_id = Missing\<rparr>,
      \<lparr>success = False, data = Some ''B'', similarity_group_id = Label ''sim_group_9''\<rparr>,
      \<lparr>success = True, data = Some ''C'', similarity_group_id = Label ''sim_group_9''\<rparr>]
     [\<lparr>success = True, data = Some ''A'', similarity_group_id = Label ''old''\<rparr>,
      \<lparr>success = False, data = Some ''B'', similarity_group_id = Missing\<rparr>,
      \<lparr>success = True, data = Some ''C'', similarity_group_id = Null\<rparr>] \<and>
   (\<exists>qs'.
      run_stage1 (\<lambda>mcs ms sel (es :: nat list). map (\<lambda>e. 0 :: int) es)
        [\<lparr>success = True, data = Some ''A'', similarity_group_id = Label ''old''\<rparr>,
         \<lparr>success = False, data = Some ''B'', similarity_group_id = Missing\<rparr>,
         \<lparr>success = True, data = Some ''C'', similarity_group_id = Null\<rparr>]
        (map length) (Some (\<lambda>a b. 0.9)) 2 0.7 True = Inr qs' \<and>
      run_stage1 (\<lambda>mcs ms sel (es :: nat list). map (\<lambda>e. 0 :: int) es)
        [\<lparr>success = True, data = Some ''A'', similarity_group_id = Missing\<rparr>,
         \<lparr>success = False, data = Some ''B'', similarity_group_id = Label ''sim_group_9''\<rparr>,
         \<lparr>success = True, data = Some ''C'', similarity_group_id = Label ''sim_group_9''\<rparr>]
        (map length) (Some (\<lambda>a b. 0.9)) 2 0.7 True = Inr qs' \<and>
      length qs' = 3)"
proof -
  let ?hd = "\<lambda>(mcs :: int) (ms :: int) (sel :: selection_method) (es :: nat list). map (\<lambda>e. 0 :: int) es"
  let ?be = "map length :: string list \<Rightarrow> nat list"
  let ?qs = "[\<lparr>success = True, data = Some ''A'', similarity_group_id = Label ''old''\<rparr>,
         \<lparr>success = False, data = Some ''B'', similarity_group_id = Missing\<rparr>,
         \<lparr>success = True, data = Some ''C'', similarity_group_id = Null\<rparr>]"
  let ?other = "[\<lparr>success = True, data = Some ''A'', similarity_group_id = Missing\<rparr>,
      \<lparr>success = False, data = Some ''B'', similarity_group_id = Label ''sim_group_9''\<rparr>,
      \<lparr>success = True, data = Some ''C'', similarity_group_id = Label ''sim_group_9''\<rparr>]"
  have h1: "encoder_ok ?be" by (simp add: encoder_ok_def)
  have h2: "clusterer_ok ?hd" by (simp add: clusterer_ok_def)
  have h3: "list_all2 same_payload ?other ?qs" by (simp add: same_payload_def)
  from stage1_recomputes_all_labels [OF h1 h2, of ?qs "Some (\<lambda>a b. 0.9)" 2 "0.7" True]
  obtain m qs' where
    run: "run_stage1 ?hd ?qs ?be (Some (\<lambda>a b. 0.9)) 2 0.7 True = Inr qs'"
    and len: "length qs' = length ?qs"
    and indep: "\<forall>other. list_all2 same_payload other ?qs \<longrightarrow>
         run_stage1 ?hd other ?be (Some (\<lambda>a b. 0.9)) 2 0.7 True = Inr qs'"
    by (elim exE conjE) (rule that)
  have run': "run_stage1 ?hd ?other ?be (Some (\<lambda>a b. 0.9)) 2 0.7 True = Inr qs'"
    using indep [THEN spec, of ?other, THEN mp, OF h3] .
  have len3: "length qs' = 3" using len by simp
  have "\<exists>qs'. run_stage1 ?hd ?qs ?be (Some (\<lambda>a b. 0.9)) 2 0.7 True = Inr qs' \<and>
      run_stage1 ?hd ?other ?be (Some (\<lambda>a b. 0.9)) 2 0.7 True = Inr qs' \<and> length qs' = 3"
    by (rule exI [of _ qs']) (intro conjI run run' len3)
  then show ?thesis by (intro conjI h1 h2 h3)
qed

text \<open>
  C9. Under the same assumptions on the libraries, after Stage 1 the label field of every
  record is present: it holds a label or \<open>None\<close>, never stays absent, and it holds \<open>None\<close>
  for every record whose success flag or data payload is missing.
\<close>

theorem stage1_writes_every_label_field:
  assumes "encoder_ok bi_encoder" and "clusterer_ok hdbscan"
  shows "\<exists>qs'.
      run_stage1 hdbscan questions bi_encoder cross_encoder min_cluster_size threshold
        use_cross_encoder = Inr qs' \<and>
      length qs' = length questions \<and>
      (\<forall>i < length questions.
         similarity_group_id (qs' ! i) \<noteq> Missing \<and>
         (\<not> success (questions ! i) \<or> data (questions ! i) = None \<longrightarrow>
            similarity_group_id (qs' ! i) = Null))"
proof -
  from run_stage1_total [OF assms, of questions cross_encoder min_cluster_size threshold use_cross_encoder]
  obtain m where
    run: "run_stage1 hdbscan questions bi_encoder cross_encoder min_cluster_size threshold
        use_cross_encoder = Inr (apply_assignments m questions)"
    and dom: "dom (map_of m) \<subseteq> {i. i < length questions \<and> eligible (questions ! i)}" by blast
  let ?qs = "apply_assignments m questions"
  have len: "length ?qs = length questions" by (rule length_apply_assignments)
  have "similarity_group_id (?qs ! i) \<noteq> Missing \<and>
         (\<not> success (questions ! i) \<or> data (questions ! i) = None \<longrightarrow>
            similarity_group_id (?qs ! i) = Null)" if i: "i < length questions" for i
  proof -
    have a: "similarity_group_id (?qs ! i) = (case map_of m i of None \<Rightarrow> Null | Some l \<Rightarrow> Label l)"
      using i by (simp add: nth_apply_assignments)
    have "map_of m i = None" if "\<not> success (questions ! i) \<or> data (questions ! i) = None"
    proof -
      have "\<not> eligible (questions ! i)" using that by (auto simp: eligible_def)
      then have "i \<notin> dom (map_of m)" using dom by auto
      then show ?thesis by (simp add: dom_def)
    qed
    then show ?thesis unfolding a by (auto split: option.splits)
  qed
  then show ?thesis using run len by blast
qed

text \<open>A failed record without the field and a record without data that carried a label.\<close>

theorem stage1_writes_every_label_field_witness:
  "encoder_ok (map length :: string list \<Rightarrow> nat list) \<and>
   clusterer_ok (\<lambda>mcs ms sel (es :: nat list). map (\<lambda>e. 0 :: int) es) \<and>
   (\<exists>qs'.
      run_stage1 (\<lambda>mcs ms sel (es :: nat list). map (\<lambda>e. 0 :: int) es)
        [\<lparr>success = True, data = Some ''A'', similarity_group_id = Label ''old''\<rparr>,
         \<lparr>success = False, data = Some ''B'', similarity_group_id = Missing\<rparr>,
         \<lparr>success = True, data = None, similarity_group_id = Label ''old''\<rparr>]
        (map length) (Some (\<lambda>a b. 0.9)) 2 0.7 True = Inr qs' \<and>
      length qs' = 3 \<and>
      similarity_group_id (qs' ! 0) \<noteq> Missing \<and>
      similarity_group_id (qs' ! 1) = Null \<and>
      similarity_group_id (qs' ! 2) = Null)"
proof -
  let ?hd = "\<lambda>(mcs :: int) (ms :: int) (sel :: selection_method) (es :: nat list). map (\<lambda>e. 0 :: int) es"
  let ?be = "map length :: string list \<Rightarrow> nat list"
  let ?qs = "[\<lparr>success = True, data = Some ''A'', similarity_group_id = Label ''old''\<rparr>,
         \<lparr>success = False, data = Some ''B'', similarity_group_id = Missing\<rparr>,
         \<lparr>success = True, data = None, similarity_group_id = Label ''old''\<rparr>]"
  have h1: "encoder_ok ?be" by (simp add: encoder_ok_def)
  have h2: "clusterer_ok ?hd" by (simp add: clusterer_ok_def)
  from stage1_writes_every_label_field [OF h1 h2, of ?qs "Some (\<lambda>a b. 0.9)" 2 "0.7" True]
  obtain qs' where
    run: "run_stage1 ?hd ?qs ?be (Some (\<lambda>a b. 0.9)) 2 0.7 True = Inr qs'"
    and len: "length qs' = length ?qs"
    and each: "\<forall>i < length ?qs.
         similarity_group_id (qs' ! i) \<noteq> Missing \<and>
         (\<not> success (?qs ! i) \<or> data (?qs ! i) = None \<longrightarrow> similarity_group_id (qs' ! i) = Null)"
    by (elim exE conjE) (rule that)
  have i0: "(0::nat) < length ?qs" and i1: "(1::nat) < length ?qs" and i2: "(2::nat) < length ?qs"
    by simp_all
  have a: "similarity_group_id (qs' ! 0) \<noteq> Missing"
    using each [THEN spec, of 0, THEN mp, OF i0] by simp
  have b: "similarity_group_id (qs' ! 1) = Null"
    using each [THEN spec, of 1, THEN mp, OF i1] by simp
  have c: "similarity_group_id (qs' ! 2) = Null"
    using each [THEN spec, of 2, THEN mp, OF i2] by simp
  have len3: "length qs' = 3" using len by simp
  have "\<exists>qs'. run_stage1 ?hd ?qs ?be (Some (\<lambda>a b. 0.9)) 2 0.7 True = Inr qs' \<and> length qs' = 3 \<and>
      similarity_group_id (qs' ! 0) \<noteq> Missing \<and> similarity_group_id (qs' ! 1) = Null \<and>
      similarity_group_id (qs' ! 2) = Null"
    by (rule exI [of _ qs']) (intro conjI run len3 a b c)
  then show ?thesis by (intro conjI h1 h2)
qed

text \<open>
  C3, as the specification states it, on five members whose dendrogram cut gives the
  clusters 1, 1, 2, 3, 3: the fallback discards the singleton cluster 2 and returns the two
  surviving clusters under the numbers 1 and 3 of the cut, which are not the contiguous
  numbers 1, 2.
\<close>

theorem fallback_numbers_not_contiguous:
  "try_split_with_cross_encoder (\<lambda>dist t. [1, 1, 2, 3, 3]) [] [10, 11, 12, 13, 14]
       [''a'', ''b'', ''c'', ''d'', ''e''] (\<lambda>a b. 0.5) 0.85
     = Inr (Some [(10, 1), (11, 1), (13, 3), (14, 3)]) \<and>
   \<not> contiguous_numbers [(10, 1), (11, 1), (13, 3), (14, 3)]"
proof -
  have "{1..2 :: nat} = {1, 2}" by auto
  then have "\<not> contiguous_numbers [(10, 1), (11, 1), (13, 3), (14, 3)]"
    by (auto simp: contiguous_numbers_def)
  then show ?thesis using fallback_example by simp
qed

text \<open>
  C3, amended. In the hierarchical fallback on a group of at least four distinct members (all
  with a text), where the dendrogram cut labels every member: clusters with fewer than 2
  members are discarded; if fewer than 2 clusters survive, the fallback reports that no
  split is possible; otherwise it returns the members of the surviving clusters, each with
  the cluster number that the cut gave it. The numbers are not changed, so they may have
  gaps.
\<close>

theorem fallback_keeps_cut_numbers:
  fixes fcluster :: hierarchy
  assumes "distinct indices" and "4 \<le> length indices" and "length indices \<le> length texts"
    and "length (fcluster (dist_matrix ce texts (length indices)) (1 - threshold)) = length indices"
  shows "try_split_with_cross_encoder fcluster questions indices texts ce threshold =
     (if card (surviving (fcluster (dist_matrix ce texts (length indices)) (1 - threshold))) \<le> 1
      then Inr None
      else Inr (Some (filter
             (\<lambda>(idx, l). l \<in> surviving (fcluster (dist_matrix ce texts (length indices)) (1 - threshold)))
             (zip indices (fcluster (dist_matrix ce texts (length indices)) (1 - threshold))))))"
proof -
  let ?labels = "fcluster (dist_matrix ce texts (length indices)) (1 - threshold)"
  have le: "length ?labels \<le> length indices" using assms(4) by simp
  have "card (surviving ?labels) \<le> card (set ?labels)"
    by (rule card_mono) (auto simp: surviving_subset [THEN subsetD])
  then have c: "card (set ?labels) \<le> 1 \<Longrightarrow> card (surviving ?labels) \<le> 1" by simp
  show ?thesis
    unfolding fallback_closed_form [where fcluster = fcluster and indices = indices and texts = texts
        and ce = ce and threshold = threshold, OF assms(1-3) le]
    using c by (auto simp: assms(4))
qed

text \<open>Five members cut into the clusters 1, 1, 2, 3, 3.\<close>

theorem fallback_keeps_cut_numbers_witness:
  "distinct [10, 11, 12, 13, 14 :: nat] \<and> 4 \<le> length [10, 11, 12, 13, 14 :: nat] \<and>
   length [10, 11, 12, 13, 14 :: nat] \<le> length [''a'', ''b'', ''c'', ''d'', ''e''] \<and>
   try_split_with_cross_encoder (\<lambda>dist t. [1, 1, 2, 3, 3]) [] [10, 11, 12, 13, 14]
       [''a'', ''b'', ''c'', ''d'', ''e''] (\<lambda>a b. 0.5) 0.85
     = Inr (Some [(10, 1), (11, 1), (13, 3), (14, 3)])"
proof -
  have h1: "distinct [10, 11, 12, 13, 14 :: nat]" by simp
  have h2: "4 \<le> length [10, 11, 12, 13, 14 :: nat]" by simp
  have h3: "length [10, 11, 12, 13, 14 :: nat] \<le> length [''a'', ''b'', ''c'', ''d'', ''e'']" by simp
  have h4: "length ((\<lambda>dist t. [1, 1, 2, 3, 3 :: nat])
      (dist_matrix (\<lambda>a b. 0.5) [''a'', ''b'', ''c'', ''d'', ''e''] (length [10, 11, 12, 13, 14 :: nat]))
      (1 - 0.85 :: real)) = length [10, 11, 12, 13, 14 :: nat]" by simp
  have "try_split_with_cross_encoder (\<lambda>dist t. [1, 1, 2, 3, 3]) [] [10, 11, 12, 13, 14]
       [''a'', ''b'', ''c'', ''d'', ''e''] (\<lambda>a b. 0.5) 0.85
     = Inr (Some [(10, 1), (11, 1), (13, 3), (14, 3)])"
    unfolding fallback_keeps_cut_numbers [where fcluster = "\<lambda>dist t. [1, 1, 2, 3, 3]"
        and indices = "[10, 11, 12, 13, 14]" and texts = "[''a'', ''b'', ''c'', ''d'', ''e'']"
        and ce = "\<lambda>a b. 0.5" and threshold = "0.85", OF h1 h2 h3 h4] surviving_example by simp
  then show ?thesis using h1 h2 h3 by blast
qed

text \<open>
  C10. For a group of distinct records in range (with the embedding model and HDBSCAN
  returning one result for each input): when the group has at least four members and the
  fine density pass yields at most one non-noise cluster, the result of \<open>try_split_group\<close>
  is the result of the hierarchical fallback. When the fine pass yields two or more
  clusters, the result does not depend on the hierarchical clustering at all, so the
  fallback plays no part in it; the bounded verification completes, and if it produces at
  most one distinct sub-group, \<open>try_split_group\<close> reports no split and the refinement
  step leaves every record unchanged and counts the group as kept.
\<close>

theorem fallback_only_without_fine_clusters:
  fixes fcluster fcluster' :: hierarchy and ce :: cross_encoder
  assumes "distinct indices" and "\<forall>i \<in> set indices. i < length questions"
    and "encoder_ok bi_encoder" and "clusterer_ok hdbscan"
  shows "(4 \<le> length indices \<and>
          card (fine_clusters (fine_labels hdbscan bi_encoder questions indices)) \<le> 1 \<longrightarrow>
            try_split_group hdbscan fcluster questions indices bi_encoder ce threshold =
              try_split_with_cross_encoder fcluster questions indices
                (group_texts questions indices) ce threshold) \<and>
         (2 \<le> card (fine_clusters (fine_labels hdbscan bi_encoder questions indices)) \<longrightarrow>
            try_split_group hdbscan fcluster' questions indices bi_encoder ce threshold =
              try_split_group hdbscan fcluster questions indices bi_encoder ce threshold \<and>
            (\<exists>counter verified.
               verify_sub_clusters ce threshold (group_texts questions indices) indices
                 (group_by_cluster
                    (List.enumerate 0 (fine_labels hdbscan bi_encoder questions indices)) [])
                 (0, []) = Inr (counter, verified) \<and>
               (card (snd ` set verified) \<le> 1 \<longrightarrow>
                  try_split_group hdbscan fcluster questions indices bi_encoder ce threshold
                    = Inr None \<and>
                  refine_group hdbscan fcluster bi_encoder ce threshold (group_id, indices)
                      (questions, groups_split, groups_kept)
                    = Inr (questions, groups_split, groups_kept + 1))))"
proof (intro conjI impI)
  assume "4 \<le> length indices \<and>
          card (fine_clusters (fine_labels hdbscan bi_encoder questions indices)) \<le> 1"
  then show "try_split_group hdbscan fcluster questions indices bi_encoder ce threshold =
              try_split_with_cross_encoder fcluster questions indices
                (group_texts questions indices) ce threshold"
    using try_split_group_fallback' [OF _ assms(2)] by blast
next
  assume many: "2 \<le> card (fine_clusters (fine_labels hdbscan bi_encoder questions indices))"
  show "try_split_group hdbscan fcluster' questions indices bi_encoder ce threshold =
              try_split_group hdbscan fcluster questions indices bi_encoder ce threshold"
  proof (cases "length indices < 4")
    case True
    then show ?thesis by (simp add: try_split_group_short)
  next
    case False
    then have four: "4 \<le> length indices" by simp
    show ?thesis
      unfolding try_split_group_fine' [OF four assms(2) many] ..
  qed
  from fine_pass_total [OF assms(1,3,4), of ce threshold questions] obtain counter verified where
    run: "verify_sub_clusters ce threshold (group_texts questions indices) indices
       (group_by_cluster (List.enumerate 0 (fine_labels hdbscan bi_encoder questions indices)) [])
       (0, []) = Inr (counter, verified)" by blast
  have kept: "try_split_group hdbscan fcluster questions indices bi_encoder ce threshold = Inr None"
    if one: "card (snd ` set verified) \<le> 1"
  proof (cases "length indices < 4")
    case True
    then show ?thesis by (simp add: try_split_group_short)
  next
    case False
    then have four: "4 \<le> length indices" by simp
    have "length (remdups (map snd verified)) \<le> 1"
      using one by (simp add: length_remdups_card_conv)
    then show ?thesis
      unfolding try_split_group_fine' [OF four assms(2) many] run by simp
  qed
  have "card (snd ` set verified) \<le> 1 \<longrightarrow>
      try_split_group hdbscan fcluster questions indices bi_encoder ce threshold = Inr None \<and>
      refine_group hdbscan fcluster bi_encoder ce threshold (group_id, indices)
          (questions, groups_split, groups_kept)
        = Inr (questions, groups_split, groups_kept + 1)"
    using kept by simp
  then show "\<exists>counter verified.
               verify_sub_clusters ce threshold (group_texts questions indices) indices
                 (group_by_cluster
                    (List.enumerate 0 (fine_labels hdbscan bi_encoder questions indices)) [])
                 (0, []) = Inr (counter, verified) \<and>
               (card (snd ` set verified) \<le> 1 \<longrightarrow>
                  try_split_group hdbscan fcluster questions indices bi_encoder ce threshold
                    = Inr None \<and>
                  refine_group hdbscan fcluster bi_encoder ce threshold (group_id, indices)
                      (questions, groups_split, groups_kept)
                    = Inr (questions, groups_split, groups_kept + 1))"
    using run by blast
qed

text \<open>
  A group of four records: the fine pass finds two clusters and no pair reaches the
  threshold, so the group is kept under two different hierarchical clusterings; with a
  fine pass that finds only noise, the result is that of the fallback.
\<close>

theorem fallback_only_without_fine_clusters_witness:
  "2 \<le> card (fine_clusters (fine_labels
       (\<lambda>mcs ms sel es. map (\<lambda>e. if e = ''query: x'' then 0 else 1) es) (\<lambda>texts. texts)
       [\<lparr>success = True, data = Some ''x'', similarity_group_id = Label ''g''\<rparr>,
        \<lparr>success = True, data = Some ''x'', similarity_group_id = Label ''g''\<rparr>,
        \<lparr>success = True, data = Some ''y'', similarity_group_id = Label ''g''\<rparr>,
        \<lparr>success = True, data = Some ''y'', similarity_group_id = Label ''g''\<rparr>] [0, 1, 2, 3])) \<and>
   try_split_group (\<lambda>mcs ms sel es. map (\<lambda>e. if e = ''query: x'' then 0 else 1) es)
       (\<lambda>dist t. [0..<length dist])
       [\<lparr>success = True, data = Some ''x'', similarity_group_id = Label ''g''\<rparr>,
        \<lparr>success = True, data = Some ''x'', similarity_group_id = Label ''g''\<rparr>,
        \<lparr>success = True, data = Some ''y'', similarity_group_id = Label ''g''\<rparr>,
        \<lparr>success = True, data = Some ''y'', similarity_group_id = Label ''g''\<rparr>] [0, 1, 2, 3]
       (\<lambda>texts. texts) (\<lambda>a b. 0.1) 0.85
     = try_split_group (\<lambda>mcs ms sel es. map (\<lambda>e. if e = ''query: x'' then 0 else 1) es)
       (\<lambda>dist t. map (\<lambda>row. 1) dist)
       [\<lparr>success = True, data = Some ''x'', similarity_group_id = Label ''g''\<rparr>,
        \<lparr>success = True, data = Some ''x'', similarity_group_id = Label ''g''\<rparr>,
        \<lparr>success = True, data = Some ''y'', similarity_group_id = Label ''g''\<rparr>,
        \<lparr>success = True, data = Some ''y'', similarity_group_id = Label ''g''\<rparr>] [0, 1, 2, 3]
       (\<lambda>texts. texts) (\<lambda>a b. 0.1) 0.85 \<and>
   refine_group (\<lambda>mcs ms sel es. map (\<lambda>e. if e = ''query: x'' then 0 else 1) es)
       (\<lambda>dist t. map (\<lambda>row. 1) dist) (\<lambda>texts. texts) (\<lambda>a b. 0.1) 0.85 (''g'', [0, 1, 2, 3])
       ([\<lparr>success = True, data = Some ''x'', similarity_group_id = Label ''g''\<rparr>,
         \<lparr>success = True, data = Some ''x'', similarity_group_id = Label ''g''\<rparr>,
         \<lparr>success = True, data = Some ''y'', similarity_group_id = Label ''g''\<rparr>,
         \<lparr>success = True, data = Some ''y'', similarity_group_id = Label ''g''\<rparr>], 0, 0)
     = Inr ([\<lparr>success = True, data = Some ''x'', similarity_group_id = Label ''g''\<rparr>,
             \<lparr>success = True, data = Some ''x'', similarity_group_id = Label ''g''\<rparr>,
             \<lparr>success = True, data = Some ''y'', similarity_group_id = Label ''g''\<rparr>,
             \<lparr>success = True, data = Some ''y'', similarity_group_id = Label ''g''\<rparr>], 0, 1) \<and>
   card (fine_clusters (fine_labels (\<lambda>mcs ms sel es. map (\<lambda>e. - 1) es) (\<lambda>texts. texts)
       [\<lparr>success = True, data = Some ''x'', similarity_group_id = Label ''g''\<rparr>,
        \<lparr>success = True, data = Some ''x'', similarity_group_id = Label ''g''\<rparr>,
        \<lparr>success = True, data = Some ''y'', similarity_group_id = Label ''g''\<rparr>,
        \<lparr>success = True, data = Some ''y'', similarity_group_id = Label ''g''\<rparr>] [0, 1, 2, 3])) \<le> 1 \<and>
   try_split_group (\<lambda>mcs ms sel es. map (\<lambda>e. - 1) es) (\<lambda>dist t. map (\<lambda>row. 1) dist)
       [\<lparr>success = True, data = Some ''x'', similarity_group_id = Label ''g''\<rparr>,
        \<lparr>success = True, data = Some ''x'', similarity_group_id = Label ''g''\<rparr>,
        \<lparr>success = True, data = Some ''y'', similarity_group_id = Label ''g''\<rparr>,
        \<lparr>success = True, data = Some ''y'', similarity_group_id = Label ''g''\<rparr>] [0, 1, 2, 3]
       (\<lambda>texts. texts) (\<lambda>a b. 0.1) 0.85
     = try_split_with_cross_encoder (\<lambda>dist t. map (\<lambda>row. 1) dist)
       [\<lparr>success = True, data = Some ''x'', similarity_group_id = Label ''g''\<rparr>,
        \<lparr>success = True, data = Some ''x'', similarity_group_id = Label ''g''\<rparr>,
        \<lparr>success = True, data = Some ''y'', similarity_group_id = Label ''g''\<rparr>,
        \<lparr>success = True, data = Some ''y'', similarity_group_id = Label ''g''\<rparr>] [0, 1, 2, 3]
       [''x'', ''x'', ''y'', ''y''] (\<lambda>a b. 0.1) 0.85"
proof -
  let ?hd = "\<lambda>(mcs :: int) (ms :: int) (sel :: selection_method) (es :: string list).
        map (\<lambda>e. if e = ''query: x'' then 0 else (1 :: int)) es"
  let ?noise = "\<lambda>(mcs :: int) (ms :: int) (sel :: selection_method) (es :: string list).
        map (\<lambda>e. - 1 :: int) es"
  let ?be = "\<lambda>texts :: string list. texts"
  let ?fc = "\<lambda>(dist :: real list list) (t :: real). map (\<lambda>row. 1 :: nat) dist"
  let ?fc' = "\<lambda>(dist :: real list list) (t :: real). [0..<length dist]"
  let ?ce = "\<lambda>(a :: string) (b :: string). 0.1 :: real"
  let ?qs = "[\<lparr>success = True, data = Some ''x'', similarity_group_id = Label ''g''\<rparr>,
        \<lparr>success = True, data = Some ''x'', similarity_group_id = Label ''g''\<rparr>,
        \<lparr>success = True, data = Some ''y'', similarity_group_id = Label ''g''\<rparr>,
        \<lparr>success = True, data = Some ''y'', similarity_group_id = Label ''g''\<rparr>]"
  let ?I = "[0, 1, 2, 3 :: nat]"
  have h1: "distinct ?I" by simp
  have h2: "\<forall>i \<in> set ?I. i < length ?qs" by simp
  have h3: "encoder_ok ?be" by (simp add: encoder_ok_def)
  have h4: "clusterer_ok ?hd" by (simp add: clusterer_ok_def)
  have h4': "clusterer_ok ?noise" by (simp add: clusterer_ok_def)
  have texts: "group_texts ?qs ?I = [''x'', ''x'', ''y'', ''y'']"
    by (simp add: group_texts_def get_question_text_def)
  have many: "2 \<le> card (fine_clusters (fine_labels ?hd ?be ?qs ?I))"
    unfolding ex_labels by (simp add: fine_clusters_def)
  have none: "4 \<le> length ?I \<and> card (fine_clusters (fine_labels ?noise ?be ?qs ?I)) \<le> 1"
    by (simp add: fine_clusters_def fine_labels_def group_texts_def)
  note fine = fallback_only_without_fine_clusters [OF h1 h2 h3 h4,
      where fcluster = ?fc and fcluster' = ?fc' and ce = ?ce and threshold = "0.85"
        and group_id = "''g''" and groups_split = 0 and groups_kept = 0,
      THEN conjunct2, THEN mp, OF many]
  note same = fine [THEN conjunct1]
  from fine [THEN conjunct2] obtain counter verified where
    run: "verify_sub_clusters ?ce 0.85 (group_texts ?qs ?I) ?I
       (group_by_cluster (List.enumerate 0 (fine_labels ?hd ?be ?qs ?I)) []) (0, [])
         = Inr (counter, verified)"
    and kept: "card (snd ` set verified) \<le> 1 \<longrightarrow>
       try_split_group ?hd ?fc ?qs ?I ?be ?ce 0.85 = Inr None \<and>
       refine_group ?hd ?fc ?be ?ce 0.85 (''g'', ?I) (?qs, 0, 0) = Inr (?qs, 0, 0 + 1)"
    by (elim exE conjE) (rule that)
  have "verified = []" using run unfolding texts ex_labels ex_run by simp
  then have "card (snd ` set verified) \<le> 1" by simp
  then have keep: "refine_group ?hd ?fc ?be ?ce 0.85 (''g'', ?I) (?qs, 0, 0) = Inr (?qs, 0, 1)"
    using kept by simp
  note fb = fallback_only_without_fine_clusters [OF h1 h2 h3 h4',
      where fcluster = ?fc and ce = ?ce and threshold = "0.85",
      THEN conjunct1, THEN mp, OF none, unfolded texts]
  show ?thesis by (intro conjI many same keep none [THEN conjunct2] fb)
qed

text \<open>
  C4, as the specification states it, on a collection with one group of three records and
  one of two, refined with the size threshold 2: the loop counts no group split and one
  group kept, and prints these counts, but the value that \<open>run_stage2\<close> returns to its
  caller is \<open>None\<close>, not the counts.
\<close>

theorem stage2_returns_no_counts:
  "refine_groups (\<lambda>mcs ms sel es. map (\<lambda>e. - 1) es) (\<lambda>dist t. map (\<lambda>row. 1) dist)
       (\<lambda>texts. texts) (\<lambda>a b. 0.9) 0.85
       (find_large_groups
          [\<lparr>success = True, data = Some ''a'', similarity_group_id = Label ''g''\<rparr>,
           \<lparr>success = True, data = Some ''b'', similarity_group_id = Label ''g''\<rparr>,
           \<lparr>success = True, data = Some ''c'', similarity_group_id = Label ''g''\<rparr>,
           \<lparr>success = True, data = Some ''d'', similarity_group_id = Label ''h''\<rparr>,
           \<lparr>success = True, data = Some ''e'', similarity_group_id = Label ''h''\<rparr>] 2)
       ([\<lparr>success = True, data = Some ''a'', similarity_group_id = Label ''g''\<rparr>,
         \<lparr>success = True, data = Some ''b'', similarity_group_id = Label ''g''\<rparr>,
         \<lparr>success = True, data = Some ''c'', similarity_group_id = Label ''g''\<rparr>,
         \<lparr>success = True, data = Some ''d'', similarity_group_id = Label ''h''\<rparr>,
         \<lparr>success = True, data = Some ''e'', similarity_group_id = Label ''h''\<rparr>], 0, 0)
     = Inr ([\<lparr>success = True, data = Some ''a'', similarity_group_id = Label ''g''\<rparr>,
             \<lparr>success = True, data = Some ''b'', similarity_group_id = Label ''g''\<rparr>,
             \<lparr>success = True, data = Some ''c'', similarity_group_id = Label ''g''\<rparr>,
             \<lparr>success = True, data = Some ''d'', similarity_group_id = Label ''h''\<rparr>,
             \<lparr>success = True, data = Some ''e'', similarity_group_id = Label ''h''\<rparr>], 0, 1) \<and>
   run_stage2 (\<lambda>mcs ms sel es. map (\<lambda>e. - 1) es) (\<lambda>dist t. map (\<lambda>row. 1) dist)
       [\<lparr>success = True, data = Some ''a'', similarity_group_id = Label ''g''\<rparr>,
        \<lparr>success = True, data = Some ''b'', similarity_group_id = Label ''g''\<rparr>,
        \<lparr>success = True, data = Some ''c'', similarity_group_id = Label ''g''\<rparr>,
        \<lparr>success = True, data = Some ''d'', similarity_group_id = Label ''h''\<rparr>,
        \<lparr>success = True, data = Some ''e'', similarity_group_id = Label ''h''\<rparr>]
       (\<lambda>texts. texts) (\<lambda>a b. 0.9) 2 0.85
     = Inr \<lparr>questions_after =
              [\<lparr>success = True, data = Some ''a'', similarity_group_id = Label ''g''\<rparr>,
               \<lparr>success = True, data = Some ''b'', similarity_group_id = Label ''g''\<rparr>,
               \<lparr>success = True, data = Some ''c'', similarity_group_id = Label ''g''\<rparr>,
               \<lparr>success = True, data = Some ''d'', similarity_group_id = Label ''h''\<rparr>,
               \<lparr>success = True, data = Some ''e'', similarity_group_id = Label ''h''\<rparr>],
            stdout =
              [[CHR 0x0A] @ replicate 60 CHR ''='',
               ''STAGE 2: Refining Large Groups'',
               replicate 60 CHR ''='',
               ''Found 1 groups to refine (>2 items)'',
               [CHR 0x0A] @ ''Refinement complete: 0 split, 1 kept as-is''],
            returned = None\<rparr> \<and>
   (case run_stage2 (\<lambda>mcs ms sel es. map (\<lambda>e. - 1) es) (\<lambda>dist t. map (\<lambda>row. 1) dist)
       [\<lparr>success = True, data = Some ''a'', similarity_group_id = Label ''g''\<rparr>,
        \<lparr>success = True, data = Some ''b'', similarity_group_id = Label ''g''\<rparr>,
        \<lparr>success = True, data = Some ''c'', similarity_group_id = Label ''g''\<rparr>,
        \<lparr>success = True, data = Some ''d'', similarity_group_id = Label ''h''\<rparr>,
        \<lparr>success = True, data = Some ''e'', similarity_group_id = Label ''h''\<rparr>]
       (\<lambda>texts. texts) (\<lambda>a b. 0.9) 2 0.85 of
      Inl e \<Rightarrow> None | Inr result \<Rightarrow> returned result) \<noteq> Some (0, 1)"
proof -
  have ne: "[(''g'', [0, 1, 2 :: nat])] \<noteq> []" by simp
  have s0: "str_nat 0 = ''0''" and s1: "str_nat (Suc 0) = ''1''" and s2: "str_int 2 = ''2''"
    by (simp_all add: str_nat.simps str_int_def digit_def)
  show ?thesis
    unfolding ex_large_groups ex_refine
    by (simp add: run_stage2_refine [OF ne [folded ex_large_groups], unfolded ex_large_groups, OF ex_refine] s0 s1 s2)
qed

text \<open>
  C4, amended. When the libraries return one result for each input, \<open>run_stage2\<close>
  completes and returns nothing (\<open>None\<close>) to its caller; what it reports goes to the
  standard output. When no group is larger than the size threshold it prints that the
  refinement is skipped and changes no record. Otherwise its last line prints the number
  of groups split and the number kept, which add up to the number of groups above the
  threshold. In both cases only the label of a record can change, and every record without
  a label, and every record of a group whose size is at or below the threshold, is left
  as it was.
\<close>

theorem stage2_prints_counts_and_keeps_small_groups:
  fixes fcluster :: hierarchy
  assumes "encoder_ok bi_encoder" and "clusterer_ok hdbscan" and "hierarchy_ok fcluster"
  shows "\<exists>result.
     run_stage2 hdbscan fcluster questions bi_encoder ce refine_threshold
       refine_cross_encoder_threshold = Inr result \<and>
     returned result = None \<and>
     length (questions_after result) = length questions \<and>
     (find_large_groups questions refine_threshold = [] \<longrightarrow>
        questions_after result = questions \<and>
        stdout result = [[CHR 0x0A] @ ''No groups larger than '' @ str_int refine_threshold
                           @ '' items. Skipping refinement.'']) \<and>
     (find_large_groups questions refine_threshold \<noteq> [] \<longrightarrow>
        (\<exists>groups_split groups_kept.
           groups_split + groups_kept = length (find_large_groups questions refine_threshold) \<and>
           last (stdout result) = [CHR 0x0A] @ ''Refinement complete: '' @ str_nat groups_split
              @ '' split, '' @ str_nat groups_kept @ '' kept as-is'')) \<and>
     (\<forall>i < length questions.
        same_payload (questions_after result ! i) (questions ! i) \<and>
        (get_group_id (questions ! i) = None \<longrightarrow> questions_after result ! i = questions ! i) \<and>
        (\<forall>g. get_group_id (questions ! i) = Some g \<and>
              int (length (members_of questions g)) \<le> refine_threshold \<longrightarrow>
           questions_after result ! i = questions ! i))"
proof (cases "find_large_groups questions refine_threshold = []")
  case True
  show ?thesis
    unfolding run_stage2_skip [OF True] using True by (simp add: same_payload_def)
next
  case False
  let ?gs = "find_large_groups questions refine_threshold"
  from refine_groups_frame [OF large_groups_ranges [of questions refine_threshold] assms,
      where ce = ce and t = refine_cross_encoder_threshold and s = 0 and k = 0]
  obtain Q' s k where
    run: "refine_groups hdbscan fcluster bi_encoder ce refine_cross_encoder_threshold ?gs
            (questions, 0, 0) = Inr (Q', s, k)"
    and len: "length Q' = length questions" and cnt: "s + k = length ?gs"
    and fr: "\<forall>i < length questions. (i \<notin> \<Union> (set ` snd ` set ?gs) \<longrightarrow> Q' ! i = questions ! i) \<and>
        same_payload (Q' ! i) (questions ! i)" by auto
  have small: "Q' ! i = questions ! i"
    if "i < length questions" "get_group_id (questions ! i) = None \<or>
       (\<exists>g. get_group_id (questions ! i) = Some g \<and>
            int (length (members_of questions g)) \<le> refine_threshold)" for i
  proof -
    have "i \<notin> \<Union> (set ` snd ` set ?gs)"
    proof
      assume "i \<in> \<Union> (set ` snd ` set ?gs)"
      from large_groups_members [OF this] show False using that(2) by auto
    qed
    then show ?thesis using fr that(1) by blast
  qed
  have counts: "\<exists>groups_split groups_kept.
           groups_split + groups_kept = length ?gs \<and>
           [CHR 0x0A] @ ''Refinement complete: '' @ str_nat s @ '' split, '' @ str_nat k
              @ '' kept as-is'' = [CHR 0x0A] @ ''Refinement complete: '' @ str_nat groups_split
              @ '' split, '' @ str_nat groups_kept @ '' kept as-is''"
    using cnt by blast
  show ?thesis
    unfolding run_stage2_refine [OF False run]
    using False len counts fr small by simp
qed

text \<open>
  A group of three records and a group of two: with the size threshold 2 the group of
  three is refined and the group of two is untouched; with the threshold 5 the stage is
  skipped.
\<close>

theorem stage2_prints_counts_and_keeps_small_groups_witness:
  "encoder_ok (\<lambda>texts :: string list. texts) \<and>
   clusterer_ok (\<lambda>mcs ms sel (es :: string list). map (\<lambda>e. - 1 :: int) es) \<and>
   hierarchy_ok (\<lambda>dist t. map (\<lambda>row. 1) dist) \<and>
   (\<exists>result.
      run_stage2 (\<lambda>mcs ms sel es. map (\<lambda>e. - 1) es) (\<lambda>dist t. map (\<lambda>row. 1) dist)
        [\<lparr>success = True, data = Some ''a'', similarity_group_id = Label ''g''\<rparr>,
         \<lparr>success = True, data = Some ''b'', similarity_group_id = Label ''g''\<rparr>,
         \<lparr>success = True, data = Some ''c'', similarity_group_id = Label ''g''\<rparr>,
         \<lparr>success = True, data = Some ''d'', similarity_group_id = Label ''h''\<rparr>,
         \<lparr>success = True, data = Some ''e'', similarity_group_id = Label ''h''\<rparr>]
        (\<lambda>texts. texts) (\<lambda>a b. 0.9) 2 0.85 = Inr result \<and>
      returned result = None \<and>
      length (questions_after result) = 5 \<and>
      (\<exists>groups_split groups_kept.
         groups_split + groups_kept = 1 \<and>
         last (stdout result) = [CHR 0x0A] @ ''Refinement complete: '' @ str_nat groups_split
            @ '' split, '' @ str_nat groups_kept @ '' kept as-is'') \<and>
      questions_after result ! 3
        = \<lparr>success = True, data = Some ''d'', similarity_group_id = Label ''h''\<rparr>) \<and>
   (\<exists>result.
      run_stage2 (\<lambda>mcs ms sel es. map (\<lambda>e. - 1) es) (\<lambda>dist t. map (\<lambda>row. 1) dist)
        [\<lparr>success = True, data = Some ''a'', similarity_group_id = Label ''g''\<rparr>,
         \<lparr>success = True, data = Some ''b'', similarity_group_id = Label ''g''\<rparr>,
         \<lparr>success = True, data = Some ''c'', similarity_group_id = Label ''g''\<rparr>,
         \<lparr>success = True, data = Some ''d'', similarity_group_id = Label ''h''\<rparr>,
         \<lparr>success = True, data = Some ''e'', similarity_group_id = Label ''h''\<rparr>]
        (\<lambda>texts. texts) (\<lambda>a b. 0.9) 5 0.85 = Inr result \<and>
      returned result = None \<and>
      questions_after result =
        [\<lparr>success = True, data = Some ''a'', similarity_group_id = Label ''g''\<rparr>,
         \<lparr>success = True, data = Some ''b'', similarity_group_id = Label ''g''\<rparr>,
         \<lparr>success = True, data = Some ''c'', similarity_group_id = Label ''g''\<rparr>,
         \<lparr>success = True, data = Some ''d'', similarity_group_id = Label ''h''\<rparr>,
         \<lparr>success = True, data = Some ''e'', similarity_group_id = Label ''h''\<rparr>] \<and>
      stdout result = [[CHR 0x0A] @ ''No groups larger than '' @ str_int 5
                           @ '' items. Skipping refinement.''])"
proof -
  let ?hd = "\<lambda>(mcs :: int) (ms :: int) (sel :: selection_method) (es :: string list).
        map (\<lambda>e. - 1 :: int) es"
  let ?be = "\<lambda>texts :: string list. texts"
  let ?fc = "\<lambda>(dist :: real list list) (t :: real). map (\<lambda>row. 1 :: nat) dist"
  let ?ce = "\<lambda>(a :: string) (b :: string). 0.9 :: real"
  let ?Q = "[\<lparr>success = True, data = Some ''a'', similarity_group_id = Label ''g''\<rparr>,
         \<lparr>success = True, data = Some ''b'', similarity_group_id = Label ''g''\<rparr>,
         \<lparr>success = True, data = Some ''c'', similarity_group_id = Label ''g''\<rparr>,
         \<lparr>success = True, data = Some ''d'', similarity_group_id = Label ''h''\<rparr>,
         \<lparr>success = True, data = Some ''e'', similarity_group_id = Label ''h''\<rparr>]"
  have h1: "encoder_ok ?be" by (simp add: encoder_ok_def)
  have h2: "clusterer_ok ?hd" by (simp add: clusterer_ok_def)
  have h3: "hierarchy_ok ?fc" by (simp add: hierarchy_ok_def)
  have large: "find_large_groups ?Q 2 \<noteq> []" unfolding ex_large_groups by simp
  have i3: "3 < length ?Q" by simp
  have small: "get_group_id (?Q ! 3) = Some ''h'' \<and> int (length (members_of ?Q ''h'')) \<le> 2"
    unfolding ex_members by (simp add: get_group_id_def)
  from stage2_prints_counts_and_keeps_small_groups [OF h1 h2 h3,
      where questions = ?Q and ce = ?ce and refine_threshold = 2
        and refine_cross_encoder_threshold = "0.85"]
  obtain result where
    run: "run_stage2 ?hd ?fc ?Q ?be ?ce 2 0.85 = Inr result"
    and ret: "returned result = None"
    and len: "length (questions_after result) = length ?Q"
    and cnt: "find_large_groups ?Q 2 \<noteq> [] \<longrightarrow>
        (\<exists>groups_split groups_kept.
           groups_split + groups_kept = length (find_large_groups ?Q 2) \<and>
           last (stdout result) = [CHR 0x0A] @ ''Refinement complete: '' @ str_nat groups_split
              @ '' split, '' @ str_nat groups_kept @ '' kept as-is'')"
    and fr: "\<forall>i < length ?Q.
        same_payload (questions_after result ! i) (?Q ! i) \<and>
        (get_group_id (?Q ! i) = None \<longrightarrow> questions_after result ! i = ?Q ! i) \<and>
        (\<forall>g. get_group_id (?Q ! i) = Some g \<and> int (length (members_of ?Q g)) \<le> 2 \<longrightarrow>
           questions_after result ! i = ?Q ! i)"
    by (elim exE conjE) (rule that)
  have len5: "length (questions_after result) = 5" using len by simp
  have cnt1: "\<exists>groups_split groups_kept.
         groups_split + groups_kept = 1 \<and>
         last (stdout result) = [CHR 0x0A] @ ''Refinement complete: '' @ str_nat groups_split
            @ '' split, '' @ str_nat groups_kept @ '' kept as-is''"
    using cnt [THEN mp, OF large] unfolding ex_large_groups by simp
  have "questions_after result ! 3 = ?Q ! 3"
    using fr [THEN spec, of 3, THEN mp, OF i3, THEN conjunct2, THEN conjunct2, THEN spec,
        of "''h''", THEN mp, OF small] .
  then have keep: "questions_after result ! 3
      = \<lparr>success = True, data = Some ''d'', similarity_group_id = Label ''h''\<rparr>" by simp
  have first: "\<exists>result. run_stage2 ?hd ?fc ?Q ?be ?ce 2 0.85 = Inr result \<and>
      returned result = None \<and> length (questions_after result) = 5 \<and>
      (\<exists>groups_split groups_kept.
         groups_split + groups_kept = 1 \<and>
         last (stdout result) = [CHR 0x0A] @ ''Refinement complete: '' @ str_nat groups_split
            @ '' split, '' @ str_nat groups_kept @ '' kept as-is'') \<and>
      questions_after result ! 3
        = \<lparr>success = True, data = Some ''d'', similarity_group_id = Label ''h''\<rparr>"
    by (rule exI [of _ result]) (intro conjI run ret len5 cnt1 keep)
  from stage2_prints_counts_and_keeps_small_groups [OF h1 h2 h3,
      where questions = ?Q and ce = ?ce and refine_threshold = 5
        and refine_cross_encoder_threshold = "0.85"]
  obtain skipped where
    run': "run_stage2 ?hd ?fc ?Q ?be ?ce 5 0.85 = Inr skipped"
    and ret': "returned skipped = None"
    and skip: "find_large_groups ?Q 5 = [] \<longrightarrow>
        questions_after skipped = ?Q \<and>
        stdout skipped = [[CHR 0x0A] @ ''No groups larger than '' @ str_int 5
                           @ '' items. Skipping refinement.'']"
    by (elim exE conjE) (rule that)
  note sk = skip [THEN mp, OF ex_no_large_groups]
  have second: "\<exists>result. run_stage2 ?hd ?fc ?Q ?be ?ce 5 0.85 = Inr result \<and>
      returned result = None \<and> questions_after result = ?Q \<and>
      stdout result = [[CHR 0x0A] @ ''No groups larger than '' @ str_int 5
                           @ '' items. Skipping refinement.'']"
    by (rule exI [of _ skipped]) (intro conjI run' ret' sk [THEN conjunct1] sk [THEN conjunct2])
  show ?thesis by (intro conjI h1 h2 h3 first second)
qed

end
